theory Spec2Isabelle
  imports Complex_Main
begin

section \<open>Thompson sampling for a Bernoulli bandit (thompson.py)\<close>

text \<open>
  A shallow embedding of \<^verbatim>\<open>thompson_sampling_bernoulli(true_probs, n_trials, rng)\<close>.
  Probabilities, posterior parameters and regrets are float64 in the source and
  \<^typ>\<open>real\<close> here; \<^verbatim>\<open>n_trials\<close> is a Python int (\<^typ>\<open>int\<close>).
  Every exception of the source is a value \<open>Inl e\<close>. The generator is a mutable
  object in the source: the model threads its state and returns it next to the
  outcome, also when the outcome is an exception, since the caller keeps the
  generator object and sees how far it was advanced.
\<close>

subsection \<open>Exceptions\<close>

datatype error = ValueError | IndexError | MemoryError

subsection \<open>The randomness source\<close>

text \<open>
  numpy's \<^verbatim>\<open>Generator\<close> is not part of the repository, so its scalar draws are
  parameters: one Beta draw for shape parameters \<open>a\<close> and \<open>b\<close>, one binomial draw
  for \<open>n\<close> and \<open>p\<close>, one integer draw for the half-open range from \<open>low\<close> to
  \<open>high\<close>; \<open>default_rng\<close> makes a generator state from a seed (ts\_demo.py).
\<close>

record 'g rng =
  draw_beta :: "real \<Rightarrow> real \<Rightarrow> 'g \<Rightarrow> real \<times> 'g"
  draw_binomial :: "nat \<Rightarrow> real \<Rightarrow> 'g \<Rightarrow> int \<times> 'g"
  draw_integer :: "int \<Rightarrow> int \<Rightarrow> 'g \<Rightarrow> int \<times> 'g"
  default_rng :: "nat \<Rightarrow> 'g"

text \<open>The documented range of \<^verbatim>\<open>Generator.integers(low, high)\<close>: \<open>low \<le> x < high\<close>.\<close>

definition integers_in_range :: "'g rng \<Rightarrow> bool" where
  "integers_in_range R =
     (\<forall>low high g. low < high \<longrightarrow>
        low \<le> fst (draw_integer R low high g) \<and> fst (draw_integer R low high g) < high)"

text \<open>
  \<^verbatim>\<open>rng.beta(alpha, beta)\<close> on two arrays: numpy checks the parameters first
  (\<open>a \<le> 0\<close> or \<open>b \<le> 0\<close> raises ValueError, as do shapes that do not broadcast;
  the two arrays of the source always have the same length), then draws
  element by element from the one stream.
\<close>

fun beta_draws :: "'g rng \<Rightarrow> (real \<times> real) list \<Rightarrow> 'g \<Rightarrow> real list \<times> 'g" where
  "beta_draws R [] g = ([], g)"
| "beta_draws R ((a, b) # ps) g =
     (case draw_beta R a b g of (x, g1) \<Rightarrow>
        (case beta_draws R ps g1 of (xs, g2) \<Rightarrow> (x # xs, g2)))"

definition rng_beta :: "'g rng \<Rightarrow> real list \<Rightarrow> real list \<Rightarrow> 'g \<Rightarrow> (error + real list) \<times> 'g" where
  "rng_beta R a b g =
     (if length a \<noteq> length b then (Inl ValueError, g)
      else if list_ex (\<lambda>x. x \<le> 0) a \<or> list_ex (\<lambda>x. x \<le> 0) b then (Inl ValueError, g)
      else (case beta_draws R (zip a b) g of (xs, g1) \<Rightarrow> (Inr xs, g1)))"

text \<open>
  \<^verbatim>\<open>rng.binomial(n, p)\<close>: numpy raises ValueError for \<open>p < 0\<close> or \<open>p > 1\<close>
  before it draws.
\<close>

definition rng_binomial :: "'g rng \<Rightarrow> nat \<Rightarrow> real \<Rightarrow> 'g \<Rightarrow> (error + int) \<times> 'g" where
  "rng_binomial R n p g =
     (if p < 0 \<or> 1 < p then (Inl ValueError, g)
      else (case draw_binomial R n p g of (k, g1) \<Rightarrow> (Inr k, g1)))"

text \<open>
  \<^verbatim>\<open>rng.integers(low, high, size)\<close>: an empty result for \<open>size = 0\<close>, ValueError
  for a negative size or \<open>low \<ge> high\<close>, otherwise \<open>size\<close> draws in order.
\<close>

fun integer_draws :: "'g rng \<Rightarrow> int \<Rightarrow> int \<Rightarrow> nat \<Rightarrow> 'g \<Rightarrow> int list \<times> 'g" where
  "integer_draws R low high 0 g = ([], g)"
| "integer_draws R low high (Suc k) g =
     (case draw_integer R low high g of (x, g1) \<Rightarrow>
        (case integer_draws R low high k g1 of (xs, g2) \<Rightarrow> (x # xs, g2)))"

definition rng_integers :: "'g rng \<Rightarrow> int \<Rightarrow> int \<Rightarrow> int \<Rightarrow> 'g \<Rightarrow> (error + int list) \<times> 'g" where
  "rng_integers R low high sz g =
     (if sz = 0 then (Inr [], g)
      else if sz < 0 \<or> high \<le> low then (Inl ValueError, g)
      else (case integer_draws R low high (nat sz) g of (xs, g1) \<Rightarrow> (Inr xs, g1)))"

subsection \<open>Array and list operations of Python and numpy\<close>

text \<open>
  Creating an array of \<open>n\<close> items of 8 bytes (float64 and int64, the only item types
  here) filled with \<open>v\<close>. numpy raises ValueError for a negative \<open>n\<close> and for an \<open>n\<close>
  whose byte size \<open>8 * n\<close> is beyond the largest array size \<open>2^63 - 1\<close>, that is from
  \<open>n = 2^60\<close> on. Below that it asks the machine for the memory and raises MemoryError
  when it is refused. How much the machine grants is not in the source: \<open>cap\<close>, the
  greatest length it grants, is a parameter of the model. Every array of a run has
  length \<open>n_arms\<close> or \<open>n_trials\<close>, so once \<^verbatim>\<open>ones(n_arms)\<close> and \<^verbatim>\<open>zeros(n_trials)\<close>
  have succeeded no later allocation fails.
\<close>

definition new_array :: "nat \<Rightarrow> int \<Rightarrow> 'a \<Rightarrow> error + 'a list" where
  "new_array cap n v =
     (if n < 0 then Inl ValueError
      else if 2 ^ 60 \<le> n then Inl ValueError
      else if int cap < n then Inl MemoryError
      else Inr (replicate (nat n) v))"

definition ones :: "nat \<Rightarrow> nat \<Rightarrow> error + real list" where
  "ones cap n = new_array cap (int n) 1"

definition zeros :: "nat \<Rightarrow> int \<Rightarrow> error + ('a::zero) list" where
  "zeros cap n = new_array cap n 0"

text \<open>The lengths that can be allocated, and the inputs whose arrays can.\<close>

definition allocatable :: "nat \<Rightarrow> int \<Rightarrow> bool" where
  "allocatable cap m = (m \<le> int cap \<and> m < 2 ^ 60)"

definition fits :: "nat \<Rightarrow> real list \<Rightarrow> int \<Rightarrow> bool" where
  "fits cap tp n = (allocatable cap (int (length tp)) \<and> allocatable cap n)"

text \<open>
  Python's \<^verbatim>\<open>max\<close> of a sequence: ValueError when it is empty; otherwise a scan
  that replaces the running maximum only by a strictly greater item.
\<close>

fun max_from :: "real \<Rightarrow> real list \<Rightarrow> real" where
  "max_from m [] = m"
| "max_from m (x # xs) = max_from (if m < x then x else m) xs"

fun max_py :: "real list \<Rightarrow> error + real" where
  "max_py [] = Inl ValueError"
| "max_py (x # xs) = Inr (max_from x xs)"

text \<open>
  numpy's \<^verbatim>\<open>argmax\<close>: ValueError on an empty array; otherwise a scan that keeps
  the index of the running maximum and moves it only to a strictly greater entry.
\<close>

fun argmax_from :: "nat \<Rightarrow> real \<Rightarrow> nat \<Rightarrow> real list \<Rightarrow> nat" where
  "argmax_from bi bv i [] = bi"
| "argmax_from bi bv i (x # xs) =
     (if bv < x then argmax_from i x (Suc i) xs else argmax_from bi bv (Suc i) xs)"

fun argmax :: "real list \<Rightarrow> error + nat" where
  "argmax [] = Inl ValueError"
| "argmax (x # xs) = Inr (argmax_from 0 x 1 xs)"

text \<open>
  Reading \<^verbatim>\<open>xs[i]\<close>: an index from \<open>-len\<close> up to \<open>-1\<close> reads from the end, and
  an index outside \<open>-len \<le> i < len\<close> raises IndexError. \<^verbatim>\<open>array(xs)[idx]\<close> with an index array reads element-wise.
\<close>

definition getitem :: "'a list \<Rightarrow> int \<Rightarrow> error + 'a" where
  "getitem xs i =
     (if 0 \<le> i \<and> i < int (length xs) then Inr (xs ! nat i)
      else if i < 0 \<and> - int (length xs) \<le> i then Inr (xs ! nat (int (length xs) + i))
      else Inl IndexError)"

fun take_np :: "'a list \<Rightarrow> int list \<Rightarrow> error + 'a list" where
  "take_np xs [] = Inr []"
| "take_np xs (i # idx) =
     (case getitem xs i of Inl e \<Rightarrow> Inl e
      | Inr x \<Rightarrow> (case take_np xs idx of Inl e \<Rightarrow> Inl e | Inr ys \<Rightarrow> Inr (x # ys)))"

text \<open>Writing \<^verbatim>\<open>xs[i] = v\<close> at a non-negative index: IndexError out of range.\<close>

definition setitem :: "'a list \<Rightarrow> nat \<Rightarrow> 'a \<Rightarrow> error + 'a list" where
  "setitem xs i v = (if i < length xs then Inr (xs[i := v]) else Inl IndexError)"

text \<open>\<^verbatim>\<open>cumsum\<close>: the running sums, left to right.\<close>

fun cumsum_from :: "real \<Rightarrow> real list \<Rightarrow> real list" where
  "cumsum_from acc [] = []"
| "cumsum_from acc (x # xs) = (acc + x) # cumsum_from (acc + x) xs"

definition cumsum :: "real list \<Rightarrow> real list" where
  "cumsum xs = cumsum_from 0 xs"

subsection \<open>The simulation\<close>

text \<open>
  The arrays the loop writes and the result returns (\<open>choices\<close>, \<open>rewards\<close>,
  \<open>alpha\<close>, \<open>beta\<close>), the loop's state (with \<open>realized_regret\<close>), and the
  returned dictionary, one field per key.
\<close>

record arrays =
  choices :: "int list"
  rewards :: "int list"
  alpha :: "real list"
  beta :: "real list"

record loop_state = arrays +
  realized_regret :: "real list"

record sim_results = arrays +
  cumulative_regret :: "real list"
  static_cumulative_regret :: "real list"
  true_probs :: "real list"

text \<open>One iteration of \<^verbatim>\<open>for t in range(n_trials)\<close> (lines 55 to 73).\<close>

definition trial ::
  "'g rng \<Rightarrow> real list \<Rightarrow> real \<Rightarrow> nat \<Rightarrow> loop_state \<Rightarrow> 'g \<Rightarrow> (error + loop_state) \<times> 'g" where
  "trial R tp best_prob t s g =
     (case rng_beta R (alpha s) (beta s) g of
        (Inl e, g1) \<Rightarrow> (Inl e, g1)
      | (Inr sampled_probs, g1) \<Rightarrow>
     (case argmax sampled_probs of
        Inl e \<Rightarrow> (Inl e, g1)
      | Inr chosen_arm \<Rightarrow>
     (case setitem (choices s) t (int chosen_arm) of
        Inl e \<Rightarrow> (Inl e, g1)
      | Inr choices1 \<Rightarrow>
     (case getitem tp (int chosen_arm) of
        Inl e \<Rightarrow> (Inl e, g1)
      | Inr p \<Rightarrow>
     (case rng_binomial R 1 p g1 of
        (Inl e, g2) \<Rightarrow> (Inl e, g2)
      | (Inr reward, g2) \<Rightarrow>
     (case setitem (rewards s) t reward of
        Inl e \<Rightarrow> (Inl e, g2)
      | Inr rewards1 \<Rightarrow>
     (case (if reward = 1
            then (case getitem (alpha s) (int chosen_arm) of
                    Inl e \<Rightarrow> Inl e
                  | Inr a \<Rightarrow>
                      (case setitem (alpha s) chosen_arm (a + 1) of
                         Inl e \<Rightarrow> Inl e | Inr alpha1 \<Rightarrow> Inr (alpha1, beta s)))
            else (case getitem (beta s) (int chosen_arm) of
                    Inl e \<Rightarrow> Inl e
                  | Inr b \<Rightarrow>
                      (case setitem (beta s) chosen_arm (b + 1) of
                         Inl e \<Rightarrow> Inl e | Inr beta1 \<Rightarrow> Inr (alpha s, beta1)))) of
        Inl e \<Rightarrow> (Inl e, g2)
      | Inr (alpha1, beta1) \<Rightarrow>
     (case getitem tp (int chosen_arm) of
        Inl e \<Rightarrow> (Inl e, g2)
      | Inr q \<Rightarrow>
     (case setitem (realized_regret s) t (best_prob - q) of
        Inl e \<Rightarrow> (Inl e, g2)
      | Inr regret1 \<Rightarrow>
          (Inr \<lparr>choices = choices1, rewards = rewards1, alpha = alpha1, beta = beta1,
                realized_regret = regret1\<rparr>, g2))))))))))"

text \<open>The loop over a list of trial indices; an exception ends it.\<close>

fun run_trials ::
  "'g rng \<Rightarrow> real list \<Rightarrow> real \<Rightarrow> nat list \<Rightarrow> loop_state \<Rightarrow> 'g \<Rightarrow> (error + loop_state) \<times> 'g" where
  "run_trials R tp best_prob [] s g = (Inr s, g)"
| "run_trials R tp best_prob (t # ts) s g =
     (case trial R tp best_prob t s g of
        (Inl e, g1) \<Rightarrow> (Inl e, g1)
      | (Inr s1, g1) \<Rightarrow> run_trials R tp best_prob ts s1 g1)"

text \<open>Lines 41 to 52: the arrays before the loop, and \<open>best_prob\<close>.\<close>

definition initialise :: "nat \<Rightarrow> real list \<Rightarrow> int \<Rightarrow> error + (loop_state \<times> real)" where
  "initialise cap tp n_trials =
     (let n_arms = length tp in
      case ones cap n_arms of Inl e \<Rightarrow> Inl e | Inr alpha0 \<Rightarrow>
      (case ones cap n_arms of Inl e \<Rightarrow> Inl e | Inr beta0 \<Rightarrow>
      (case zeros cap n_trials of Inl e \<Rightarrow> Inl e | Inr choices0 \<Rightarrow>
      (case zeros cap n_trials of Inl e \<Rightarrow> Inl e | Inr rewards0 \<Rightarrow>
      (case max_py tp of Inl e \<Rightarrow> Inl e | Inr best_prob \<Rightarrow>
      (case zeros cap n_trials of Inl e \<Rightarrow> Inl e | Inr regret0 \<Rightarrow>
         Inr (\<lparr>choices = choices0, rewards = rewards0, alpha = alpha0, beta = beta0,
                realized_regret = regret0\<rparr>, best_prob)))))))"

text \<open>Lines 78 and 79: the realized regret of the static baseline.\<close>

definition static_regret ::
  "'g rng \<Rightarrow> real list \<Rightarrow> real \<Rightarrow> int \<Rightarrow> 'g \<Rightarrow> (error + real list) \<times> 'g" where
  "static_regret R tp best_prob n_trials g =
     (case rng_integers R 0 (int (length tp)) n_trials g of
        (Inl e, g1) \<Rightarrow> (Inl e, g1)
      | (Inr static_choices, g1) \<Rightarrow>
          (case take_np tp static_choices of
             Inl e \<Rightarrow> (Inl e, g1)
           | Inr picked \<Rightarrow> (Inr (map (\<lambda>p. best_prob - p) picked), g1)))"

definition thompson_sampling_bernoulli ::
  "nat \<Rightarrow> 'g rng \<Rightarrow> real list \<Rightarrow> int \<Rightarrow> 'g \<Rightarrow> (error + sim_results) \<times> 'g" where
  "thompson_sampling_bernoulli cap R tp n_trials g =
     (case initialise cap tp n_trials of
        Inl e \<Rightarrow> (Inl e, g)
      | Inr (s0, best_prob) \<Rightarrow>
     (case run_trials R tp best_prob [0..<nat n_trials] s0 g of
        (Inl e, g1) \<Rightarrow> (Inl e, g1)
      | (Inr s, g1) \<Rightarrow>
     (case static_regret R tp best_prob n_trials g1 of
        (Inl e, g2) \<Rightarrow> (Inl e, g2)
      | (Inr static_realized_regret, g2) \<Rightarrow>
          (Inr \<lparr>choices = choices s, rewards = rewards s, alpha = alpha s, beta = beta s,
                cumulative_regret = cumsum (realized_regret s),
                static_cumulative_regret = cumsum static_realized_regret,
                true_probs = tp\<rparr>, g2))))"

text \<open>The inputs the specification calls valid.\<close>

definition valid_input :: "real list \<Rightarrow> int \<Rightarrow> bool" where
  "valid_input tp n_trials = (tp \<noteq> [] \<and> list_all (\<lambda>p. 0 \<le> p \<and> p \<le> 1) tp \<and> 0 < n_trials)"

subsection \<open>Auxiliary notions for the proofs\<close>

text \<open>The state the loop starts from, for a non-empty \<open>tp\<close> and \<open>0 \<le> n\<close>.\<close>

definition start_state :: "real list \<Rightarrow> int \<Rightarrow> loop_state" where
  "start_state tp n =
     \<lparr>choices = replicate (nat n) 0, rewards = replicate (nat n) 0,
      alpha = replicate (length tp) 1, beta = replicate (length tp) 1,
      realized_regret = replicate (nat n) 0\<rparr>"

text \<open>The loop invariant: array lengths, and posterior parameters that are whole numbers from 1 on.\<close>

definition state_ok :: "nat \<Rightarrow> nat \<Rightarrow> loop_state \<Rightarrow> bool" where
  "state_ok n_arms n s =
     (length (alpha s) = n_arms \<and> length (beta s) = n_arms \<and> length (choices s) = n \<and>
      length (rewards s) = n \<and> length (realized_regret s) = n \<and>
      (\<forall>x\<in>set (alpha s). x \<in> \<nat> \<and> 1 \<le> x) \<and> (\<forall>x\<in>set (beta s). x \<in> \<nat> \<and> 1 \<le> x))"

text \<open>Trial \<open>t\<close> has left an arm index and the regret of that arm at index \<open>t\<close>.\<close>

definition recorded :: "real list \<Rightarrow> real \<Rightarrow> loop_state \<Rightarrow> nat \<Rightarrow> bool" where
  "recorded tp best s t =
     (\<exists>c < length tp. choices s ! t = int c \<and> realized_regret s ! t = best - tp ! c)"

text \<open>
  The generator states that can follow \<open>g\<close>: those reached from it by draws of the
  generator \<open>R\<close>, and by nothing else.
\<close>

inductive consumes :: "'g rng \<Rightarrow> 'g \<Rightarrow> 'g \<Rightarrow> bool" for R :: "'g rng" and g :: 'g where
  no_draw: "consumes R g g"
| beta_draw: "consumes R g g1 \<Longrightarrow> consumes R g (snd (draw_beta R a b g1))"
| binomial_draw: "consumes R g g1 \<Longrightarrow> consumes R g (snd (draw_binomial R k p g1))"
| integer_draw: "consumes R g g1 \<Longrightarrow> consumes R g (snd (draw_integer R low high g1))"

text \<open>
  Two generators, possibly with different kinds of state, draw alike from states
  related by \<open>rel\<close>: every draw gives the same value on both sides and leaves related
  states.
\<close>

definition same_draws :: "('g \<Rightarrow> 'h \<Rightarrow> bool) \<Rightarrow> 'g rng \<Rightarrow> 'h rng \<Rightarrow> bool" where
  "same_draws rel R1 R2 =
     (\<forall>g h. rel g h \<longrightarrow>
        (\<forall>a b. fst (draw_beta R1 a b g) = fst (draw_beta R2 a b h) \<and>
           rel (snd (draw_beta R1 a b g)) (snd (draw_beta R2 a b h))) \<and>
        (\<forall>k p. fst (draw_binomial R1 k p g) = fst (draw_binomial R2 k p h) \<and>
           rel (snd (draw_binomial R1 k p g)) (snd (draw_binomial R2 k p h))) \<and>
        (\<forall>low high. fst (draw_integer R1 low high g) = fst (draw_integer R2 low high h) \<and>
           rel (snd (draw_integer R1 low high g)) (snd (draw_integer R2 low high h))))"

subsection \<open>A concrete generator\<close>

text \<open>
  A small linear congruential generator on \<open>{0..<16}\<close>, used to run the model on
  concrete inputs.
\<close>

definition lcg_next :: "nat \<Rightarrow> nat" where
  "lcg_next g = (5 * g + 3) mod 16"

definition lcg :: "nat rng" where
  "lcg = \<lparr>draw_beta = (\<lambda>a b g. ((a + real (lcg_next g)) / (a + b + 16), lcg_next g)),
          draw_binomial = (\<lambda>n p g. (if real (lcg_next g) < 16 * p then int n else 0, lcg_next g)),
          draw_integer = (\<lambda>low high g. (low + int (lcg_next g) mod (high - low), lcg_next g)),
          default_rng = (\<lambda>seed. seed mod 16)\<rparr>"

section \<open>Properties of the operations, of a trial and of the loop\<close>

lemma max_from_fold: "max_from m xs = fold max xs m"
  by (induction xs arbitrary: m) (auto simp: max_def)

lemma max_py_Max:
  assumes "tp \<noteq> []"
  shows "max_py tp = Inr (Max (set tp))"
proof (cases tp)
  case Nil
  with assms show ?thesis by simp
next
  case (Cons x xs)
  have "Max (set (x # xs)) = fold max xs x" by (rule Max.set_eq_fold)
  then show ?thesis using Cons by (simp add: max_from_fold)
qed

lemma argmax_from_first:
  "bi < length ys \<Longrightarrow> ys ! bi = bv \<Longrightarrow> i = length ys \<Longrightarrow>
   (\<forall>j < length ys. ys ! j \<le> bv) \<Longrightarrow> (\<forall>j < bi. ys ! j < bv) \<Longrightarrow>
   argmax_from bi bv i xs < length (ys @ xs) \<and>
   (\<forall>j < length (ys @ xs). (ys @ xs) ! j \<le> (ys @ xs) ! argmax_from bi bv i xs) \<and>
   (\<forall>j < argmax_from bi bv i xs. (ys @ xs) ! j < (ys @ xs) ! argmax_from bi bv i xs)"
proof (induction xs arbitrary: ys bi bv i)
  case Nil
  then show ?case by simp
next
  case (Cons x xs)
  show ?case
  proof (cases "bv < x")
    case True
    have "argmax_from i x (Suc i) xs < length ((ys @ [x]) @ xs) \<and>
      (\<forall>j < length ((ys @ [x]) @ xs). ((ys @ [x]) @ xs) ! j \<le> ((ys @ [x]) @ xs) ! argmax_from i x (Suc i) xs) \<and>
      (\<forall>j < argmax_from i x (Suc i) xs. ((ys @ [x]) @ xs) ! j < ((ys @ [x]) @ xs) ! argmax_from i x (Suc i) xs)"
    proof (rule Cons.IH)
      show "i < length (ys @ [x])" using Cons.prems by simp
      show "(ys @ [x]) ! i = x" using Cons.prems by simp
      show "Suc i = length (ys @ [x])" using Cons.prems by simp
      show "\<forall>j<length (ys @ [x]). (ys @ [x]) ! j \<le> x"
        using Cons.prems True by (auto simp: nth_append less_Suc_eq intro: less_imp_le order_trans)
      show "\<forall>j<i. (ys @ [x]) ! j < x"
        using Cons.prems True by (auto simp: nth_append intro: le_less_trans)
    qed
    then show ?thesis using True by simp
  next
    case False
    have "argmax_from bi bv (Suc i) xs < length ((ys @ [x]) @ xs) \<and>
      (\<forall>j < length ((ys @ [x]) @ xs). ((ys @ [x]) @ xs) ! j \<le> ((ys @ [x]) @ xs) ! argmax_from bi bv (Suc i) xs) \<and>
      (\<forall>j < argmax_from bi bv (Suc i) xs. ((ys @ [x]) @ xs) ! j < ((ys @ [x]) @ xs) ! argmax_from bi bv (Suc i) xs)"
    proof (rule Cons.IH)
      show "bi < length (ys @ [x])" using Cons.prems by simp
      show "(ys @ [x]) ! bi = bv" using Cons.prems by (simp add: nth_append)
      show "Suc i = length (ys @ [x])" using Cons.prems by simp
      show "\<forall>j<length (ys @ [x]). (ys @ [x]) ! j \<le> bv"
        using Cons.prems False by (auto simp: nth_append less_Suc_eq)
      show "\<forall>j<bi. (ys @ [x]) ! j < bv"
        using Cons.prems by (auto simp: nth_append)
    qed
    then show ?thesis using False by simp
  qed
qed

lemma argmax_first:
  assumes "argmax xs = Inr c"
  shows "c < length xs \<and> (\<forall>j < length xs. xs ! j \<le> xs ! c) \<and> (\<forall>j < c. xs ! j < xs ! c)"
proof (cases xs)
  case Nil
  with assms show ?thesis by simp
next
  case (Cons x rest)
  with assms have c: "c = argmax_from 0 x 1 rest" by simp
  have "argmax_from 0 x (length [x]) rest < length ([x] @ rest) \<and>
   (\<forall>j < length ([x] @ rest). ([x] @ rest) ! j \<le> ([x] @ rest) ! argmax_from 0 x (length [x]) rest) \<and>
   (\<forall>j < argmax_from 0 x (length [x]) rest. ([x] @ rest) ! j < ([x] @ rest) ! argmax_from 0 x (length [x]) rest)"
    by (rule argmax_from_first[where ys = "[x]"]) simp_all
  then show ?thesis using c Cons by simp
qed

lemma argmax_nonempty: "xs \<noteq> [] \<Longrightarrow> \<exists>c. argmax xs = Inr c"
  by (cases xs) simp_all

lemma beta_draws_length: "beta_draws R ps g = (xs, g1) \<Longrightarrow> length xs = length ps"
  by (induction ps arbitrary: g xs g1) (auto split: prod.splits)

lemma rng_beta_Inr:
  "rng_beta R a b g = (Inr xs, g1) \<Longrightarrow> length a = length b \<and> length xs = length a"
  by (auto simp: rng_beta_def split: if_splits prod.splits dest: beta_draws_length)

lemma rng_beta_ok:
  "length a = length b \<Longrightarrow> \<forall>x\<in>set a. 0 < x \<Longrightarrow> \<forall>x\<in>set b. 0 < x \<Longrightarrow>
   \<exists>xs g1. rng_beta R a b g = (Inr xs, g1)"
  by (auto simp: rng_beta_def list_ex_iff not_le split: prod.splits)

lemma getitem_nat: "getitem xs (int i) = (if i < length xs then Inr (xs ! i) else Inl IndexError)"
  by (simp add: getitem_def)

lemma trial_Inr:
  assumes "trial R tp best t s g = (Inr s', g')"
  shows "\<exists>sampled g1 c reward.
     rng_beta R (alpha s) (beta s) g = (Inr sampled, g1) \<and> argmax sampled = Inr c \<and>
     c < length tp \<and> t < length (choices s) \<and> t < length (rewards s) \<and>
     t < length (realized_regret s) \<and>
     rng_binomial R 1 (tp ! c) g1 = (Inr reward, g') \<and>
     (if reward = 1 then c < length (alpha s) else c < length (beta s)) \<and>
     s' = \<lparr>choices = (choices s)[t := int c], rewards = (rewards s)[t := reward],
           alpha = (if reward = 1 then (alpha s)[c := alpha s ! c + 1] else alpha s),
           beta = (if reward = 1 then beta s else (beta s)[c := beta s ! c + 1]),
           realized_regret = (realized_regret s)[t := best - tp ! c]\<rparr>"
  using assms unfolding trial_def
  by (auto simp: getitem_nat setitem_def split: prod.splits sum.splits if_splits)

lemma rng_binomial_ok:
  "0 \<le> p \<Longrightarrow> p \<le> 1 \<Longrightarrow> \<exists>k g1. rng_binomial R n p g = (Inr k, g1)"
  by (auto simp: rng_binomial_def split: prod.splits)

lemma trial_ok:
  assumes len: "length (alpha s) = length tp" "length (beta s) = length tp"
    and pos: "\<forall>x\<in>set (alpha s). 0 < x" "\<forall>x\<in>set (beta s). 0 < x"
    and t: "t < length (choices s)" "t < length (rewards s)" "t < length (realized_regret s)"
    and tp: "tp \<noteq> []" "\<forall>p\<in>set tp. 0 \<le> p \<and> p \<le> 1"
  shows "\<exists>s' g'. trial R tp best t s g = (Inr s', g')"
proof -
  obtain sampled g1 where b: "rng_beta R (alpha s) (beta s) g = (Inr sampled, g1)"
    using rng_beta_ok[of "alpha s" "beta s" R g] len pos by auto
  then have ls: "length sampled = length tp" using rng_beta_Inr[OF b] len by simp
  have "sampled \<noteq> []" using ls tp(1) by (cases sampled) auto
  then obtain c where c: "argmax sampled = Inr c" using argmax_nonempty[of sampled] by auto
  then have cl: "c < length tp" using argmax_first[OF c] ls by simp
  then have "0 \<le> tp ! c \<and> tp ! c \<le> 1" using tp by simp
  then obtain k g2 where k: "rng_binomial R 1 (tp ! c) g1 = (Inr k, g2)"
    using rng_binomial_ok[of "tp ! c" R 1 g1] by auto
  show ?thesis
    unfolding trial_def using b c cl k t len
    by (simp add: getitem_nat setitem_def)
qed


lemma bumped_ok:
  fixes xs :: "real list"
  assumes "\<forall>x\<in>set xs. x \<in> \<nat> \<and> 1 \<le> x" "c < length xs"
  shows "\<forall>x\<in>set (xs[c := xs ! c + 1]). x \<in> \<nat> \<and> 1 \<le> x"
proof
  fix x assume "x \<in> set (xs[c := xs ! c + 1])"
  then have "x = xs ! c + 1 \<or> x \<in> set xs"
    using set_update_subset_insert[of xs c "xs ! c + 1"] by auto
  moreover have "xs ! c \<in> \<nat> \<and> 1 \<le> xs ! c" using assms by simp
  ultimately show "x \<in> \<nat> \<and> 1 \<le> x" using assms(1) by (auto intro: Nats_add)
qed

lemma trial_state_ok:
  assumes ok: "state_ok n_arms n s" and tr: "trial R tp best t s g = (Inr s', g')"
  shows "state_ok n_arms n s'"
proof -
  obtain c reward where c: "if reward = 1 then c < length (alpha s) else c < length (beta s)"
    and s': "s' = \<lparr>choices = (choices s)[t := int c], rewards = (rewards s)[t := reward],
           alpha = (if reward = 1 then (alpha s)[c := alpha s ! c + 1] else alpha s),
           beta = (if reward = 1 then beta s else (beta s)[c := beta s ! c + 1]),
           realized_regret = (realized_regret s)[t := best - tp ! c]\<rparr>"
    using trial_Inr[OF tr] by blast
  have a: "\<forall>x\<in>set (alpha s). x \<in> \<nat> \<and> 1 \<le> x" and b: "\<forall>x\<in>set (beta s). x \<in> \<nat> \<and> 1 \<le> x"
    using ok by (simp_all add: state_ok_def)
  show ?thesis
  proof (cases "reward = 1")
    case True
    with c have cl: "c < length (alpha s)" by simp
    have "\<forall>x\<in>set ((alpha s)[c := alpha s ! c + 1]). x \<in> \<nat> \<and> 1 \<le> x"
      by (rule bumped_ok[OF a cl])
    then show ?thesis using ok True s' by (simp add: state_ok_def)
  next
    case False
    with c have cl: "c < length (beta s)" by simp
    have "\<forall>x\<in>set ((beta s)[c := beta s ! c + 1]). x \<in> \<nat> \<and> 1 \<le> x"
      by (rule bumped_ok[OF b cl])
    then show ?thesis using ok False s' by (simp add: state_ok_def)
  qed
qed

lemma run_trials_state_ok:
  "state_ok n_arms n s \<Longrightarrow> run_trials R tp best ts s g = (Inr s', g') \<Longrightarrow> state_ok n_arms n s'"
proof (induction ts arbitrary: s g)
  case Nil
  then show ?case by simp
next
  case (Cons t ts)
  from Cons.prems(2) obtain s1 g1 where
    st: "trial R tp best t s g = (Inr s1, g1)" and rest: "run_trials R tp best ts s1 g1 = (Inr s', g')"
    by (auto split: prod.splits sum.splits)
  from trial_state_ok[OF Cons.prems(1) st] rest show ?case by (rule Cons.IH)
qed

lemma run_trials_ok:
  assumes "state_ok (length tp) n s" "\<forall>t\<in>set ts. t < n" "tp \<noteq> []"
    "\<forall>p\<in>set tp. 0 \<le> p \<and> p \<le> 1"
  shows "\<exists>s' g'. run_trials R tp best ts s g = (Inr s', g')"
  using assms(1,2)
proof (induction ts arbitrary: s g)
  case Nil
  then show ?case by simp
next
  case (Cons t ts)
  have pos: "\<forall>x\<in>set (alpha s). 0 < x" "\<forall>x\<in>set (beta s). 0 < x"
    using Cons.prems(1) by (auto simp: state_ok_def intro: less_le_trans[OF zero_less_one])
  obtain s1 g1 where st: "trial R tp best t s g = (Inr s1, g1)"
    using trial_ok[of s tp t R best g] Cons.prems pos assms(3,4)
    by (auto simp: state_ok_def)
  have "state_ok (length tp) n s1" using trial_state_ok[OF Cons.prems(1) st] .
  then obtain s' g' where "run_trials R tp best ts s1 g1 = (Inr s', g')"
    using Cons.IH[of s1 g1] Cons.prems(2) by auto
  then show ?case using st by simp
qed

lemma sum_list_bump:
  fixes xs :: "real list"
  shows "c < length xs \<Longrightarrow> sum_list (xs[c := xs ! c + 1]) = sum_list xs + 1"
  by (induction xs arbitrary: c) (auto split: nat.splits)

lemma trial_sum:
  assumes tr: "trial R tp best t s g = (Inr s', g')"
  shows "sum_list (alpha s') + sum_list (beta s') = sum_list (alpha s) + sum_list (beta s) + 1"
proof -
  obtain c reward where c: "if reward = 1 then c < length (alpha s) else c < length (beta s)"
    and s': "s' = \<lparr>choices = (choices s)[t := int c], rewards = (rewards s)[t := reward],
           alpha = (if reward = 1 then (alpha s)[c := alpha s ! c + 1] else alpha s),
           beta = (if reward = 1 then beta s else (beta s)[c := beta s ! c + 1]),
           realized_regret = (realized_regret s)[t := best - tp ! c]\<rparr>"
    using trial_Inr[OF tr] by blast
  show ?thesis using c s' by (cases "reward = 1") (simp_all add: sum_list_bump)
qed

lemma run_trials_sum:
  "run_trials R tp best ts s g = (Inr s', g') \<Longrightarrow>
   sum_list (alpha s') + sum_list (beta s') = sum_list (alpha s) + sum_list (beta s) + real (length ts)"
proof (induction ts arbitrary: s g)
  case Nil
  then show ?case by simp
next
  case (Cons t ts)
  from Cons.prems obtain s1 g1 where
    st: "trial R tp best t s g = (Inr s1, g1)" and rest: "run_trials R tp best ts s1 g1 = (Inr s', g')"
    by (auto split: prod.splits sum.splits)
  show ?case using Cons.IH[OF rest] trial_sum[OF st] by simp
qed


lemma new_array_ok:
  "0 \<le> n \<Longrightarrow> allocatable cap n \<Longrightarrow> new_array cap n v = Inr (replicate (nat n) v)"
  by (simp add: new_array_def allocatable_def)

lemma new_array_Inr:
  "new_array cap n v = Inr xs \<Longrightarrow> 0 \<le> n \<and> allocatable cap n \<and> xs = replicate (nat n) v"
  by (auto simp: new_array_def allocatable_def split: if_splits)

lemma new_array_Inl:
  "new_array cap n v = Inl e \<Longrightarrow> (n < 0 \<or> \<not> allocatable cap n) \<and> (e = ValueError \<or> e = MemoryError)"
  by (auto simp: new_array_def allocatable_def split: if_splits)

lemma initialise_ok:
  assumes "tp \<noteq> []" "0 \<le> n" "fits cap tp n"
  shows "initialise cap tp n = Inr (start_state tp n, Max (set tp))"
  using assms
  by (simp add: initialise_def start_state_def zeros_def ones_def Let_def max_py_Max
      new_array_ok fits_def)

lemma initialise_Inr:
  assumes "initialise cap tp n = Inr (s0, best)"
  shows "tp \<noteq> [] \<and> 0 \<le> n \<and> fits cap tp n \<and> best = Max (set tp) \<and> s0 = start_state tp n"
proof -
  from assms obtain a0 c0 where a: "ones cap (length tp) = Inr a0" and c: "zeros cap n = (Inr c0 :: error + int list)"
    and m: "max_py tp \<noteq> Inl ValueError"
    by (auto simp: initialise_def Let_def split: sum.splits)
  have "allocatable cap (int (length tp))" using new_array_Inr[of cap "int (length tp)" 1 a0] a
    by (simp add: ones_def)
  moreover have "0 \<le> n \<and> allocatable cap n" using new_array_Inr[of cap n 0 c0] c
    by (simp add: zeros_def)
  moreover have "tp \<noteq> []" using m by (cases tp) simp_all
  ultimately have v: "tp \<noteq> []" "0 \<le> n" "fits cap tp n" by (simp_all add: fits_def)
  then show ?thesis using initialise_ok[OF v] assms by simp
qed

lemma initialise_Inl:
  assumes "initialise cap tp n = Inl e"
  shows "(n < 0 \<or> tp = [] \<or> \<not> fits cap tp n) \<and> (e = ValueError \<or> e = MemoryError)"
proof -
  have v: "n < 0 \<or> tp = [] \<or> \<not> fits cap tp n"
    using assms initialise_ok[of tp n cap] by (cases "tp = []"; cases "0 \<le> n"; cases "fits cap tp n") auto
  have m: "max_py tp = Inl e' \<Longrightarrow> e' = ValueError" for e' by (cases tp) simp_all
  have "e = ValueError \<or> e = MemoryError"
    using assms new_array_Inl[of cap "int (length tp)" "1::real" e]
      new_array_Inl[of cap n "0::int" e] new_array_Inl[of cap n "0::real" e] m[of e]
    by (auto simp: initialise_def ones_def zeros_def Let_def split: sum.splits)
  with v show ?thesis by simp
qed

lemma initialise_fails:
  assumes "n < 0 \<or> tp = [] \<or> \<not> fits cap tp n"
  shows "\<exists>e. initialise cap tp n = Inl e \<and> (e = ValueError \<or> e = MemoryError)"
proof (cases "initialise cap tp n")
  case (Inl e)
  then show ?thesis using initialise_Inl[OF Inl] by simp
next
  case (Inr sb)
  then show ?thesis using assms initialise_Inr[of cap tp n "fst sb" "snd sb"] by auto
qed


lemma initial_state_ok:
  "state_ok (length tp) (nat n) (start_state tp n)"
  by (simp add: state_ok_def start_state_def)

text \<open>
  The loop over \<open>ts @ us\<close> is the loop over \<open>ts\<close> followed by the loop over \<open>us\<close>: the
  state after the first \<open>k\<close> trials of a longer run is the result of the loop over
  \<open>[0..<k]\<close>.
\<close>

lemma run_trials_append:
  "run_trials R tp best (ts @ us) s g =
     (case run_trials R tp best ts s g of
        (Inl e, g1) \<Rightarrow> (Inl e, g1)
      | (Inr s1, g1) \<Rightarrow> run_trials R tp best us s1 g1)"
  by (induction ts arbitrary: s g) (auto split: prod.splits sum.splits)

lemma trial_recorded:
  assumes tr: "trial R tp best t s g = (Inr s', g')" and D: "\<forall>u\<in>D. recorded tp best s u"
  shows "\<forall>u\<in>insert t D. recorded tp best s' u"
proof -
  obtain c reward where c: "c < length tp" and t: "t < length (choices s)" "t < length (realized_regret s)"
    and s': "s' = \<lparr>choices = (choices s)[t := int c], rewards = (rewards s)[t := reward],
           alpha = (if reward = 1 then (alpha s)[c := alpha s ! c + 1] else alpha s),
           beta = (if reward = 1 then beta s else (beta s)[c := beta s ! c + 1]),
           realized_regret = (realized_regret s)[t := best - tp ! c]\<rparr>"
    using trial_Inr[OF tr] by blast
  have here: "recorded tp best s' t"
    unfolding recorded_def using c t s' by auto
  have "recorded tp best s' u" if "u \<in> D" "u \<noteq> t" for u
    using D that s' unfolding recorded_def by auto
  with here show ?thesis by auto
qed

lemma run_trials_recorded:
  "run_trials R tp best ts s g = (Inr s', g') \<Longrightarrow> \<forall>u\<in>D. recorded tp best s u \<Longrightarrow>
   \<forall>u\<in>D \<union> set ts. recorded tp best s' u"
proof (induction ts arbitrary: s g D)
  case Nil
  then show ?case by simp
next
  case (Cons t ts)
  from Cons.prems(1) obtain s1 g1 where
    st: "trial R tp best t s g = (Inr s1, g1)" and rest: "run_trials R tp best ts s1 g1 = (Inr s', g')"
    by (auto split: prod.splits sum.splits)
  have "\<forall>u\<in>insert t D \<union> set ts. recorded tp best s' u"
    using rest trial_recorded[OF st Cons.prems(2)] by (rule Cons.IH)
  then show ?case by simp
qed

lemma regret_bounds:
  fixes tp :: "real list"
  assumes "c < length tp"
  shows "0 \<le> Max (set tp) - tp ! c \<and> Max (set tp) - tp ! c \<le> Max (set tp) - Min (set tp)"
proof -
  have "tp ! c \<in> set tp" using assms by simp
  then have "tp ! c \<le> Max (set tp)" "Min (set tp) \<le> tp ! c" by simp_all
  then show ?thesis by linarith
qed

subsection \<open>The static baseline\<close>

lemma integer_draws_length: "integer_draws R low high k g = (xs, g1) \<Longrightarrow> length xs = k"
  by (induction k arbitrary: g xs g1) (auto split: prod.splits)

lemma integer_draws_range:
  assumes "integers_in_range R" "low < high"
  shows "integer_draws R low high k g = (xs, g1) \<Longrightarrow> \<forall>x\<in>set xs. low \<le> x \<and> x < high"
proof (induction k arbitrary: g xs g1)
  case 0
  then show ?case by simp
next
  case (Suc k)
  obtain x g2 where d: "draw_integer R low high g = (x, g2)" by (cases "draw_integer R low high g")
  obtain ys g3 where r: "integer_draws R low high k g2 = (ys, g3)"
    by (cases "integer_draws R low high k g2")
  have "low \<le> x \<and> x < high"
    using assms d unfolding integers_in_range_def by (metis fst_conv)
  moreover have "\<forall>x\<in>set ys. low \<le> x \<and> x < high" using r by (rule Suc.IH)
  moreover have "xs = x # ys" using Suc.prems d r by simp
  ultimately show ?case by simp
qed

lemma take_np_Inr:
  "take_np xs idx = Inr ys \<Longrightarrow> length ys = length idx \<and> (\<forall>y\<in>set ys. \<exists>i < length xs. y = xs ! i)"
proof (induction idx arbitrary: ys)
  case Nil
  then show ?case by simp
next
  case (Cons i idx)
  from Cons.prems obtain x zs where x: "getitem xs i = Inr x" and zs: "take_np xs idx = Inr zs"
    and ys: "ys = x # zs"
    by (auto split: sum.splits)
  have "\<exists>j < length xs. x = xs ! j"
  proof (cases "i < 0")
    case True
    with x have "0 \<le> int (length xs) + i" "x = xs ! nat (int (length xs) + i)"
      by (auto simp: getitem_def Let_def split: if_splits)
    then show ?thesis using True by (intro exI[of _ "nat (int (length xs) + i)"]) auto
  next
    case False
    with x have "i < int (length xs)" "x = xs ! nat i"
      by (auto simp: getitem_def Let_def split: if_splits)
    then show ?thesis using False by (intro exI[of _ "nat i"]) auto
  qed
  then show ?case using Cons.IH[OF zs] ys by auto
qed

lemma take_np_ok:
  "\<forall>i\<in>set idx. 0 \<le> i \<and> i < int (length xs) \<Longrightarrow> \<exists>ys. take_np xs idx = Inr ys"
  by (induction idx) (auto simp: getitem_def Let_def)

lemma static_regret_Inr:
  assumes "static_regret R tp best n g = (Inr sr, g2)" "0 \<le> n"
  shows "length sr = nat n \<and> (\<forall>y\<in>set sr. \<exists>i < length tp. y = best - tp ! i)"
proof -
  from assms(1) obtain idx picked where
    i: "rng_integers R 0 (int (length tp)) n g = (Inr idx, g2)" and
    p: "take_np tp idx = Inr picked" and sr: "sr = map (\<lambda>p. best - p) picked"
    unfolding static_regret_def by (auto split: prod.splits sum.splits)
  have "length idx = nat n"
    using i assms(2) by (auto simp: rng_integers_def split: if_splits prod.splits dest: integer_draws_length)
  then show ?thesis using take_np_Inr[OF p] sr by auto
qed

lemma static_regret_ok:
  assumes "integers_in_range R" "tp \<noteq> []" "0 \<le> n"
  shows "\<exists>sr g2. static_regret R tp best n g = (Inr sr, g2)"
proof (cases "n = 0")
  case True
  then show ?thesis by (simp add: static_regret_def rng_integers_def)
next
  case False
  obtain idx g1 where d: "integer_draws R 0 (int (length tp)) (nat n) g = (idx, g1)"
    by (cases "integer_draws R 0 (int (length tp)) (nat n) g")
  have lt: "(0::int) < int (length tp)" using assms(2) by simp
  have "\<forall>x\<in>set idx. 0 \<le> x \<and> x < int (length tp)"
    using d by (rule integer_draws_range[OF assms(1) lt])
  then obtain ys where "take_np tp idx = Inr ys" using take_np_ok by blast
  then show ?thesis using False assms d lt by (simp add: static_regret_def rng_integers_def)
qed

subsection \<open>Running sums\<close>

lemma length_cumsum_from: "length (cumsum_from a xs) = length xs"
  by (induction xs arbitrary: a) auto

lemma cumsum_from_lower: "\<forall>x\<in>set xs. 0 \<le> x \<Longrightarrow> \<forall>y\<in>set (cumsum_from a xs). a \<le> y"
proof (induction xs arbitrary: a)
  case Nil
  then show ?case by simp
next
  case (Cons x xs)
  have "\<forall>y\<in>set (cumsum_from (a + x) xs). a + x \<le> y" using Cons by simp
  then show ?case using Cons.prems by auto
qed

lemma sorted_cumsum_from: "\<forall>x\<in>set xs. 0 \<le> x \<Longrightarrow> sorted (cumsum_from a xs)"
proof (induction xs arbitrary: a)
  case Nil
  then show ?case by simp
next
  case (Cons x xs)
  have "\<forall>y\<in>set (cumsum_from (a + x) xs). a + x \<le> y"
    using Cons.prems by (intro cumsum_from_lower) simp
  then show ?case using Cons by simp
qed

lemma cumsum_from_zeros: "cumsum_from a (replicate n 0) = replicate n a"
  by (induction n) auto

section \<open>The whole simulation\<close>




lemma simulation_unfold:
  assumes "tp \<noteq> []" "0 \<le> n" "fits cap tp n"
  shows "thompson_sampling_bernoulli cap R tp n g =
    (case run_trials R tp (Max (set tp)) [0..<nat n] (start_state tp n) g of
       (Inl e, g1) \<Rightarrow> (Inl e, g1)
     | (Inr s, g1) \<Rightarrow>
        (case static_regret R tp (Max (set tp)) n g1 of
           (Inl e, g2) \<Rightarrow> (Inl e, g2)
         | (Inr sr, g2) \<Rightarrow>
             (Inr \<lparr>choices = choices s, rewards = rewards s, alpha = alpha s, beta = beta s,
                   cumulative_regret = cumsum (realized_regret s),
                   static_cumulative_regret = cumsum sr, true_probs = tp\<rparr>, g2)))"
  using assms by (simp add: thompson_sampling_bernoulli_def initialise_ok)

lemma simulation_fails_early:
  assumes "n < 0 \<or> tp = [] \<or> \<not> fits cap tp n"
  shows "\<exists>e. thompson_sampling_bernoulli cap R tp n g = (Inl e, g) \<and>
    (e = ValueError \<or> e = MemoryError)"
  using initialise_fails[OF assms] by (auto simp: thompson_sampling_bernoulli_def)


lemma simulation_Inr:
  assumes run: "thompson_sampling_bernoulli cap R tp n g = (Inr r, g2)"
  shows "tp \<noteq> [] \<and> 0 \<le> n \<and> fits cap tp n \<and>
    (\<exists>s g1 sr. run_trials R tp (Max (set tp)) [0..<nat n] (start_state tp n) g = (Inr s, g1) \<and>
       static_regret R tp (Max (set tp)) n g1 = (Inr sr, g2) \<and>
       r = \<lparr>choices = choices s, rewards = rewards s, alpha = alpha s, beta = beta s,
             cumulative_regret = cumsum (realized_regret s),
             static_cumulative_regret = cumsum sr, true_probs = tp\<rparr>)"
proof -
  have "\<not> (n < 0 \<or> tp = [] \<or> \<not> fits cap tp n)"
    using run simulation_fails_early[of n tp cap R g] by auto
  then have v: "tp \<noteq> []" "0 \<le> n" "fits cap tp n" by auto
  show ?thesis
    using run v unfolding simulation_unfold[OF v]
    by (auto split: prod.splits sum.splits)
qed

lemma simulation_ok:
  assumes ne: "tp \<noteq> []" and rng: "\<forall>p\<in>set tp. 0 \<le> p \<and> p \<le> 1" and n: "0 \<le> n"
    and f: "fits cap tp n" and R: "integers_in_range R"
  shows "\<exists>s g1 sr g2.
       run_trials R tp (Max (set tp)) [0..<nat n] (start_state tp n) g = (Inr s, g1) \<and>
       static_regret R tp (Max (set tp)) n g1 = (Inr sr, g2) \<and>
       thompson_sampling_bernoulli cap R tp n g =
         (Inr \<lparr>choices = choices s, rewards = rewards s, alpha = alpha s, beta = beta s,
             cumulative_regret = cumsum (realized_regret s),
             static_cumulative_regret = cumsum sr, true_probs = tp\<rparr>, g2)"
proof -
  have "\<forall>t\<in>set [0..<nat n]. t < nat n" by simp
  then obtain s g1 where
    run: "run_trials R tp (Max (set tp)) [0..<nat n] (start_state tp n) g = (Inr s, g1)"
    using run_trials_ok[OF initial_state_ok _ ne rng, of "[0..<nat n]" n R "Max (set tp)" g] by auto
  obtain sr g2 where st: "static_regret R tp (Max (set tp)) n g1 = (Inr sr, g2)"
    using static_regret_ok[OF R ne n] by blast
  show ?thesis using run st by (simp add: simulation_unfold[OF ne n f])
qed

lemma valid_inputD:
  "valid_input tp n \<Longrightarrow> tp \<noteq> [] \<and> (\<forall>p\<in>set tp. 0 \<le> p \<and> p \<le> 1) \<and> 0 \<le> n \<and> 0 < n"
  by (auto simp: valid_input_def list_all_iff)

text \<open>What the loop leaves behind when it has run all of \<open>range(n_trials)\<close>.\<close>

lemma full_run_facts:
  assumes run: "run_trials R tp best [0..<nat n] (start_state tp n) g = (Inr s, g1)"
  shows "state_ok (length tp) (nat n) s \<and> (\<forall>t < nat n. recorded tp best s t) \<and>
    sum_list (alpha s) + sum_list (beta s) = 2 * real (length tp) + real (nat n)"
proof -
  have ok: "state_ok (length tp) (nat n) s"
    using initial_state_ok run by (rule run_trials_state_ok)
  have "\<forall>u\<in>{} \<union> set [0..<nat n]. recorded tp best s u"
    using run by (rule run_trials_recorded) simp
  then have rec: "\<forall>t < nat n. recorded tp best s t" by simp
  have "sum_list (alpha s) + sum_list (beta s) =
     sum_list (alpha (start_state tp n)) + sum_list (beta (start_state tp n)) + real (length [0..<nat n])"
    using run by (rule run_trials_sum)
  then have "sum_list (alpha s) + sum_list (beta s) = 2 * real (length tp) + real (nat n)"
    by (simp add: start_state_def sum_list_replicate)
  with ok rec show ?thesis by simp
qed

section \<open>Runs of the concrete generator\<close>

lemma lcg_in_range: "integers_in_range lcg"
  unfolding integers_in_range_def
proof (intro allI impI)
  fix low high :: int and g :: nat
  assume "low < high"
  then have "0 < high - low" by simp
  then have "0 \<le> int (lcg_next g) mod (high - low) \<and> int (lcg_next g) mod (high - low) < high - low"
    by simp
  then show "low \<le> fst (draw_integer lcg low high g) \<and> fst (draw_integer lcg low high g) < high"
    by (simp add: lcg_def)
qed

lemma lcg_valid: "valid_input [1/4, 3/4] 2"
  by (simp add: valid_input_def)

lemma lcg_fits: "fits 10 [1/4, 3/4] 2"
  by (simp add: fits_def allocatable_def)

lemma lcg_initialise: "initialise 10 [1/4, 3/4] 2 = Inr (start_state [1/4, 3/4] 2, 3/4)"
  by code_simp

lemma lcg_trial:
  "trial lcg [1/4, 3/4] (3/4) 0 (start_state [1/4, 3/4] 2) 0 =
     (Inr \<lparr>choices = [0, 0], rewards = [0, 0], alpha = [1, 1], beta = [2, 1],
            realized_regret = [1/2, 0]\<rparr>, 13)"
  by code_simp

lemma lcg_loop:
  "run_trials lcg [1/4, 3/4] (3/4) [0..<2] (start_state [1/4, 3/4] 2) 0 =
     (Inr \<lparr>choices = [0, 1], rewards = [0, 1], alpha = [1, 2], beta = [2, 1],
            realized_regret = [1/2, 0]\<rparr>, 6)"
  by code_simp

lemma lcg_run:
  "thompson_sampling_bernoulli 10 lcg [1/4, 3/4] 2 (default_rng lcg 0) =
     (Inr \<lparr>choices = [0, 1], rewards = [0, 1], alpha = [1, 2], beta = [2, 1],
            cumulative_regret = [1/2, 1/2], static_cumulative_regret = [0, 1/2],
            true_probs = [1/4, 3/4]\<rparr>, 8)"
  by code_simp

section \<open>What a call does to the generator\<close>

lemma consumes_trans: "consumes R g1 g2 \<Longrightarrow> consumes R g g1 \<Longrightarrow> consumes R g g2"
  by (induction rule: consumes.induct) (auto intro: consumes.intros)

lemma consumes_beta_draws: "beta_draws R ps g = (xs, g1) \<Longrightarrow> consumes R g g1"
proof (induction ps arbitrary: g xs g1)
  case Nil
  then show ?case by (simp add: consumes.no_draw)
next
  case (Cons ab ps)
  obtain a b where ab: "ab = (a, b)" by (cases ab)
  obtain x g2 where d: "draw_beta R a b g = (x, g2)" by (cases "draw_beta R a b g")
  obtain ys g3 where r: "beta_draws R ps g2 = (ys, g3)" by (cases "beta_draws R ps g2")
  have "g1 = g3" using Cons.prems ab d r by simp
  moreover have "consumes R g g2"
    using consumes.beta_draw[OF consumes.no_draw, of R g a b] d by simp
  moreover have "consumes R g2 g3" using r by (rule Cons.IH)
  ultimately show ?case by (auto intro: consumes_trans)
qed

lemma consumes_rng_beta: "rng_beta R a b g = (out, g1) \<Longrightarrow> consumes R g g1"
  by (auto simp: rng_beta_def consumes.no_draw split: if_splits prod.splits
      dest: consumes_beta_draws)

lemma consumes_rng_binomial: "rng_binomial R k p g = (out, g1) \<Longrightarrow> consumes R g g1"
proof (cases "p < 0 \<or> 1 < p")
  case True
  assume "rng_binomial R k p g = (out, g1)"
  with True show ?thesis by (auto simp: rng_binomial_def consumes.no_draw)
next
  case False
  assume "rng_binomial R k p g = (out, g1)"
  with False have "g1 = snd (draw_binomial R k p g)"
    by (auto simp: rng_binomial_def split: prod.splits)
  then show ?thesis using consumes.binomial_draw[OF consumes.no_draw, of R g k p] by simp
qed

lemma consumes_integer_draws: "integer_draws R low high k g = (xs, g1) \<Longrightarrow> consumes R g g1"
proof (induction k arbitrary: g xs g1)
  case 0
  then show ?case by (simp add: consumes.no_draw)
next
  case (Suc k)
  obtain x g2 where d: "draw_integer R low high g = (x, g2)" by (cases "draw_integer R low high g")
  obtain ys g3 where r: "integer_draws R low high k g2 = (ys, g3)"
    by (cases "integer_draws R low high k g2")
  have "g1 = g3" using Suc.prems d r by simp
  moreover have "consumes R g g2"
    using consumes.integer_draw[OF consumes.no_draw, of R g low high] d by simp
  moreover have "consumes R g2 g3" using r by (rule Suc.IH)
  ultimately show ?case by (auto intro: consumes_trans)
qed

lemma consumes_rng_integers: "rng_integers R low high sz g = (out, g1) \<Longrightarrow> consumes R g g1"
  by (auto simp: rng_integers_def consumes.no_draw split: if_splits prod.splits
      dest: consumes_integer_draws)

lemma consumes_trial:
  assumes "trial R tp best t s g = (out, g')"
  shows "consumes R g g'"
proof (cases "rng_beta R (alpha s) (beta s) g")
  case (Pair o1 g1)
  have c1: "consumes R g g1" using Pair by (rule consumes_rng_beta)
  show ?thesis
  proof (cases "g' = g1")
    case True
    then show ?thesis using c1 by simp
  next
    case False
    then obtain p o2 where "rng_binomial R 1 p g1 = (o2, g')"
      using assms Pair unfolding trial_def
      by (auto split: sum.splits prod.splits if_splits)
    then have "consumes R g1 g'" by (rule consumes_rng_binomial)
    then show ?thesis using c1 by (rule consumes_trans)
  qed
qed

lemma consumes_run_trials:
  "run_trials R tp best ts s g = (out, g') \<Longrightarrow> consumes R g g'"
proof (induction ts arbitrary: s g)
  case Nil
  then show ?case by (simp add: consumes.no_draw)
next
  case (Cons t ts)
  obtain o1 g1 where tr: "trial R tp best t s g = (o1, g1)" by (cases "trial R tp best t s g")
  have c1: "consumes R g g1" using tr by (rule consumes_trial)
  show ?case
  proof (cases o1)
    case (Inl e)
    then have "g' = g1" using Cons.prems tr by simp
    then show ?thesis using c1 by simp
  next
    case (Inr s1)
    then have "run_trials R tp best ts s1 g1 = (out, g')" using Cons.prems tr by simp
    then have "consumes R g1 g'" by (rule Cons.IH)
    then show ?thesis using c1 by (rule consumes_trans)
  qed
qed

lemma consumes_static_regret:
  "static_regret R tp best n g = (out, g') \<Longrightarrow> consumes R g g'"
  unfolding static_regret_def
  by (auto split: prod.splits sum.splits dest: consumes_rng_integers)

lemma consumes_simulation:
  assumes "thompson_sampling_bernoulli cap R tp n g = (out, g')"
  shows "consumes R g g'"
proof (cases "initialise cap tp n")
  case (Inl e)
  then have "g' = g" using assms by (simp add: thompson_sampling_bernoulli_def)
  then show ?thesis by (simp add: consumes.no_draw)
next
  case (Inr sb)
  obtain s0 best where sb: "sb = (s0, best)" by (cases sb)
  obtain o1 g1 where run: "run_trials R tp best [0..<nat n] s0 g = (o1, g1)"
    by (cases "run_trials R tp best [0..<nat n] s0 g")
  have c1: "consumes R g g1" using run by (rule consumes_run_trials)
  show ?thesis
  proof (cases o1)
    case (Inl e)
    then have "g' = g1" using assms Inr sb run by (simp add: thompson_sampling_bernoulli_def)
    then show ?thesis using c1 by simp
  next
    case (Inr s)
    obtain o2 g2 where st: "static_regret R tp best n g1 = (o2, g2)"
      by (cases "static_regret R tp best n g1")
    have "g' = g2"
      using assms \<open>initialise cap tp n = Inr sb\<close> sb run Inr st
      by (auto simp: thompson_sampling_bernoulli_def split: sum.splits)
    moreover have "consumes R g1 g2" using st by (rule consumes_static_regret)
    ultimately show ?thesis using c1 by (auto intro: consumes_trans)
  qed
qed

section \<open>Shared facts about a run\<close>

lemma bump_mono:
  fixes xs :: "real list"
  shows "i < length xs \<Longrightarrow> xs ! i \<le> (xs[c := xs ! c + 1]) ! i"
  by (cases "i = c") simp_all

lemma valid_run:
  assumes v: "valid_input tp n" and f: "fits cap tp n" and R: "integers_in_range R"
  shows "\<exists>s g1 sr g2.
       run_trials R tp (Max (set tp)) [0..<nat n] (start_state tp n) g = (Inr s, g1) \<and>
       static_regret R tp (Max (set tp)) n g1 = (Inr sr, g2) \<and>
       thompson_sampling_bernoulli cap R tp n g =
         (Inr \<lparr>choices = choices s, rewards = rewards s, alpha = alpha s, beta = beta s,
             cumulative_regret = cumsum (realized_regret s),
             static_cumulative_regret = cumsum sr, true_probs = tp\<rparr>, g2)"
  using valid_inputD[OF v] f R by (intro simulation_ok) simp_all

lemma recorded_bounds:
  assumes "recorded tp (Max (set tp)) s t"
  shows "0 \<le> realized_regret s ! t \<and> realized_regret s ! t \<le> Max (set tp) - Min (set tp)"
  using assms regret_bounds[of _ tp] unfolding recorded_def by auto

lemma static_bounds:
  assumes st: "static_regret R tp (Max (set tp)) n g1 = (Inr sr, g2)" and n: "0 \<le> n"
    and t: "t < nat n"
  shows "(\<exists>i < length tp. sr ! t = Max (set tp) - tp ! i) \<and>
     0 \<le> sr ! t \<and> sr ! t \<le> Max (set tp) - Min (set tp)"
proof -
  have "sr ! t \<in> set sr" using static_regret_Inr[OF st n] t by simp
  then obtain i where i: "i < length tp" "sr ! t = Max (set tp) - tp ! i"
    using static_regret_Inr[OF st n] by blast
  then show ?thesis using regret_bounds[OF i(1)] by auto
qed

lemma per_trial_facts:
  assumes run: "run_trials R tp (Max (set tp)) [0..<nat n] (start_state tp n) g = (Inr s, g1)"
    and st: "static_regret R tp (Max (set tp)) n g1 = (Inr sr, g2)" and n: "0 \<le> n"
  shows "length (realized_regret s) = nat n" and "length sr = nat n"
    and "length (choices s) = nat n"
    and "\<forall>t < nat n.
        (\<exists>c < length tp. choices s ! t = int c \<and>
           realized_regret s ! t = Max (set tp) - tp ! c) \<and>
        0 \<le> realized_regret s ! t \<and>
        realized_regret s ! t \<le> Max (set tp) - Min (set tp) \<and>
        (\<exists>i < length tp. sr ! t = Max (set tp) - tp ! i) \<and>
        0 \<le> sr ! t \<and> sr ! t \<le> Max (set tp) - Min (set tp)"
proof -
  have ok: "state_ok (length tp) (nat n) s" and rec: "\<forall>t < nat n. recorded tp (Max (set tp)) s t"
    using full_run_facts[OF run] by simp_all
  show "length (realized_regret s) = nat n" "length (choices s) = nat n"
    using ok by (simp_all add: state_ok_def)
  show "length sr = nat n" using static_regret_Inr[OF st n] by simp
  show "\<forall>t < nat n.
        (\<exists>c < length tp. choices s ! t = int c \<and>
           realized_regret s ! t = Max (set tp) - tp ! c) \<and>
        0 \<le> realized_regret s ! t \<and>
        realized_regret s ! t \<le> Max (set tp) - Min (set tp) \<and>
        (\<exists>i < length tp. sr ! t = Max (set tp) - tp ! i) \<and>
        0 \<le> sr ! t \<and> sr ! t \<le> Max (set tp) - Min (set tp)"
  proof (intro allI impI)
    fix t assume t: "t < nat n"
    have r: "recorded tp (Max (set tp)) s t" using rec t by simp
    have a: "\<exists>c < length tp. choices s ! t = int c \<and>
           realized_regret s ! t = Max (set tp) - tp ! c"
      using r by (simp add: recorded_def)
    show "(\<exists>c < length tp. choices s ! t = int c \<and>
           realized_regret s ! t = Max (set tp) - tp ! c) \<and>
        0 \<le> realized_regret s ! t \<and>
        realized_regret s ! t \<le> Max (set tp) - Min (set tp) \<and>
        (\<exists>i < length tp. sr ! t = Max (set tp) - tp ! i) \<and>
        0 \<le> sr ! t \<and> sr ! t \<le> Max (set tp) - Min (set tp)"
      using a recorded_bounds[OF r] static_bounds[OF st n t] by simp
  qed
qed

lemma valid_returns:
  assumes "valid_input tp n" and "fits cap tp n" and "integers_in_range R"
  shows "\<exists>r g'. thompson_sampling_bernoulli cap R tp n g = (Inr r, g')"
  using valid_run[OF assms, of g] by blast

lemma cumsum_steps:
  assumes "\<forall>x\<in>set xs. 0 \<le> x"
  shows "length (cumsum xs) = length xs \<and> sorted (cumsum xs) \<and>
    (\<forall>i. Suc i < length xs \<longrightarrow> cumsum xs ! i \<le> cumsum xs ! Suc i)"
proof -
  have l: "length (cumsum xs) = length xs" by (simp add: cumsum_def length_cumsum_from)
  have s: "sorted (cumsum xs)" using assms by (simp add: cumsum_def sorted_cumsum_from)
  then have "\<forall>i. Suc i < length xs \<longrightarrow> cumsum xs ! i \<le> cumsum xs ! Suc i"
    using l by (simp add: sorted_iff_nth_Suc)
  with l s show ?thesis by simp
qed

lemma nonneg_list:
  fixes xs :: "real list"
  assumes "length xs = k" "\<forall>t < k. 0 \<le> xs ! t"
  shows "\<forall>x\<in>set xs. 0 \<le> x"
  using assms by (auto simp: in_set_conv_nth)

section \<open>Runs on generators that draw alike\<close>

lemma beta_draws_sim:
  assumes sd: "same_draws rel R1 R2"
  shows "rel g h \<Longrightarrow> fst (beta_draws R1 ps g) = fst (beta_draws R2 ps h) \<and>
    rel (snd (beta_draws R1 ps g)) (snd (beta_draws R2 ps h))"
proof (induction ps arbitrary: g h)
  case Nil
  then show ?case by simp
next
  case (Cons ab ps)
  obtain a b where ab: "ab = (a, b)" by (cases ab)
  have d: "fst (draw_beta R1 a b g) = fst (draw_beta R2 a b h)"
    "rel (snd (draw_beta R1 a b g)) (snd (draw_beta R2 a b h))"
    using sd Cons.prems unfolding same_draws_def by blast+
  show ?case using Cons.IH[OF d(2)] d(1) ab by (simp add: split_beta)
qed

lemma rng_beta_sim:
  assumes "same_draws rel R1 R2" "rel g h"
  shows "fst (rng_beta R1 a b g) = fst (rng_beta R2 a b h) \<and>
    rel (snd (rng_beta R1 a b g)) (snd (rng_beta R2 a b h))"
  using beta_draws_sim[OF assms, of "zip a b"] assms(2) by (simp add: rng_beta_def split_beta)

lemma rng_binomial_sim:
  assumes "same_draws rel R1 R2" "rel g h"
  shows "fst (rng_binomial R1 k p g) = fst (rng_binomial R2 k p h) \<and>
    rel (snd (rng_binomial R1 k p g)) (snd (rng_binomial R2 k p h))"
proof -
  have "fst (draw_binomial R1 k p g) = fst (draw_binomial R2 k p h)"
    "rel (snd (draw_binomial R1 k p g)) (snd (draw_binomial R2 k p h))"
    using assms unfolding same_draws_def by blast+
  then show ?thesis using assms(2) by (simp add: rng_binomial_def split_beta)
qed

lemma integer_draws_sim:
  assumes sd: "same_draws rel R1 R2"
  shows "rel g h \<Longrightarrow> fst (integer_draws R1 low high k g) = fst (integer_draws R2 low high k h) \<and>
    rel (snd (integer_draws R1 low high k g)) (snd (integer_draws R2 low high k h))"
proof (induction k arbitrary: g h)
  case 0
  then show ?case by simp
next
  case (Suc k)
  have d: "fst (draw_integer R1 low high g) = fst (draw_integer R2 low high h)"
    "rel (snd (draw_integer R1 low high g)) (snd (draw_integer R2 low high h))"
    using sd Suc.prems unfolding same_draws_def by blast+
  show ?case using Suc.IH[OF d(2)] d(1) by (simp add: split_beta)
qed

lemma rng_integers_sim:
  assumes "same_draws rel R1 R2" "rel g h"
  shows "fst (rng_integers R1 low high sz g) = fst (rng_integers R2 low high sz h) \<and>
    rel (snd (rng_integers R1 low high sz g)) (snd (rng_integers R2 low high sz h))"
  using integer_draws_sim[OF assms, of low high "nat sz"] assms(2)
  by (simp add: rng_integers_def split_beta)

lemma trial_sim:
  assumes sd: "same_draws rel R1 R2" and r: "rel g h"
  shows "fst (trial R1 tp best t s g) = fst (trial R2 tp best t s h) \<and>
    rel (snd (trial R1 tp best t s g)) (snd (trial R2 tp best t s h))"
proof -
  obtain o1 g1 where b1: "rng_beta R1 (alpha s) (beta s) g = (o1, g1)"
    by (cases "rng_beta R1 (alpha s) (beta s) g")
  obtain o1' h1 where b2: "rng_beta R2 (alpha s) (beta s) h = (o1', h1)"
    by (cases "rng_beta R2 (alpha s) (beta s) h")
  have e1: "o1' = o1" "rel g1 h1"
    using rng_beta_sim[OF sd r, of "alpha s" "beta s"] b1 b2 by simp_all
  show ?thesis
  proof (cases o1)
    case (Inl e)
    then show ?thesis using b1 b2 e1 by (simp add: trial_def)
  next
    case (Inr sampled)
    show ?thesis
    proof (cases "argmax sampled")
      case (Inl e)
      then show ?thesis using b1 b2 e1 Inr by (simp add: trial_def)
    next
      case c: (Inr c)
      show ?thesis
      proof (cases "setitem (choices s) t (int c)")
        case (Inl e)
        then show ?thesis using b1 b2 e1 Inr c by (simp add: trial_def)
      next
        case ch: (Inr ch)
        show ?thesis
        proof (cases "getitem tp (int c)")
          case (Inl e)
          then show ?thesis using b1 b2 e1 Inr c ch by (simp add: trial_def)
        next
          case p: (Inr p)
          obtain o2 g2 where d1: "rng_binomial R1 1 p g1 = (o2, g2)"
            by (cases "rng_binomial R1 1 p g1")
          obtain o2' h2 where d2: "rng_binomial R2 1 p h1 = (o2', h2)"
            by (cases "rng_binomial R2 1 p h1")
          have e2: "o2' = o2" "rel g2 h2"
            using rng_binomial_sim[OF sd e1(2), of 1 p] d1 d2 by simp_all
          show ?thesis
            using b1 b2 e1 Inr c ch p d1 d2 e2
            by (cases o2) (auto simp: trial_def split: sum.splits)
        qed
      qed
    qed
  qed
qed

lemma run_trials_sim:
  assumes sd: "same_draws rel R1 R2"
  shows "rel g h \<Longrightarrow> fst (run_trials R1 tp best ts s g) = fst (run_trials R2 tp best ts s h) \<and>
    rel (snd (run_trials R1 tp best ts s g)) (snd (run_trials R2 tp best ts s h))"
proof (induction ts arbitrary: s g h)
  case Nil
  then show ?case by simp
next
  case (Cons t ts)
  obtain o1 g1 where t1: "trial R1 tp best t s g = (o1, g1)" by (cases "trial R1 tp best t s g")
  obtain o1' h1 where t2: "trial R2 tp best t s h = (o1', h1)" by (cases "trial R2 tp best t s h")
  have e: "o1' = o1" "rel g1 h1"
    using trial_sim[OF sd Cons.prems, of tp best t s] t1 t2 by simp_all
  show ?case
  proof (cases o1)
    case (Inl err)
    then show ?thesis using t1 t2 e by simp
  next
    case (Inr s1)
    then show ?thesis using t1 t2 e Cons.IH[OF e(2), of s1] by simp
  qed
qed

lemma static_regret_sim:
  assumes "same_draws rel R1 R2" "rel g h"
  shows "fst (static_regret R1 tp best n g) = fst (static_regret R2 tp best n h) \<and>
    rel (snd (static_regret R1 tp best n g)) (snd (static_regret R2 tp best n h))"
proof -
  obtain o1 g1 where i1: "rng_integers R1 0 (int (length tp)) n g = (o1, g1)"
    by (cases "rng_integers R1 0 (int (length tp)) n g")
  obtain o1' h1 where i2: "rng_integers R2 0 (int (length tp)) n h = (o1', h1)"
    by (cases "rng_integers R2 0 (int (length tp)) n h")
  have e: "o1' = o1" "rel g1 h1"
    using rng_integers_sim[OF assms, of 0 "int (length tp)" n] i1 i2 by simp_all
  show ?thesis using i1 i2 e
    by (cases o1) (auto simp: static_regret_def split: sum.splits)
qed

lemma simulation_sim:
  assumes sd: "same_draws rel R1 R2" and r: "rel g h"
  shows "fst (thompson_sampling_bernoulli cap R1 tp n g) =
      fst (thompson_sampling_bernoulli cap R2 tp n h) \<and>
    rel (snd (thompson_sampling_bernoulli cap R1 tp n g))
      (snd (thompson_sampling_bernoulli cap R2 tp n h))"
proof (cases "initialise cap tp n")
  case (Inl e)
  then show ?thesis using r by (simp add: thompson_sampling_bernoulli_def)
next
  case (Inr sb)
  obtain s0 best where sb: "sb = (s0, best)" by (cases sb)
  obtain o1 g1 where l1: "run_trials R1 tp best [0..<nat n] s0 g = (o1, g1)"
    by (cases "run_trials R1 tp best [0..<nat n] s0 g")
  obtain o1' h1 where l2: "run_trials R2 tp best [0..<nat n] s0 h = (o1', h1)"
    by (cases "run_trials R2 tp best [0..<nat n] s0 h")
  have e: "o1' = o1" "rel g1 h1"
    using run_trials_sim[OF sd r, of tp best "[0..<nat n]" s0] l1 l2 by simp_all
  show ?thesis
  proof (cases o1)
    case (Inl err)
    then show ?thesis using Inr sb l1 l2 e by (simp add: thompson_sampling_bernoulli_def)
  next
    case s: (Inr s)
    obtain o2 g2 where s1: "static_regret R1 tp best n g1 = (o2, g2)"
      by (cases "static_regret R1 tp best n g1")
    obtain o2' h2 where s2: "static_regret R2 tp best n h1 = (o2', h2)"
      by (cases "static_regret R2 tp best n h1")
    have e2: "o2' = o2" "rel g2 h2"
      using static_regret_sim[OF sd e(2), of tp best n] s1 s2 by simp_all
    show ?thesis using Inr sb l1 l2 e s s1 s2 e2
      by (cases o2) (simp_all add: thompson_sampling_bernoulli_def)
  qed
qed

section \<open>Failure modes\<close>




section \<open>Determinism\<close>

text \<open>
  C2: the outcome of a call is fixed by \<open>true_probs\<close>, \<open>n_trials\<close> and the values the
  seeded generator yields. Two calls with the same \<open>true_probs\<close> and \<open>n_trials\<close>, on
  generators that draw alike and are seeded into related states, have the same outcome
  (the same exception, or bundles equal in \<open>choices\<close>, \<open>rewards\<close>, both cumulative regret
  series, \<open>alpha\<close>, \<open>beta\<close> and \<open>true_probs\<close>) and leave their generators in related states.
  Two calls on one kind of generator seeded twice from the same seed are the case where
  the relation is equality; how a generator is seeded otherwise plays no part.
\<close>

theorem determinism:
  assumes "same_draws rel R1 R2"
    and "rel (default_rng R1 seed1) (default_rng R2 seed2)"
    and "thompson_sampling_bernoulli cap R1 tp n (default_rng R1 seed1) = (out1, g1)"
    and "thompson_sampling_bernoulli cap R2 tp n (default_rng R2 seed2) = (out2, g2)"
  shows "out1 = out2 \<and> rel g1 g2 \<and>
    (\<forall>r1 r2. out1 = Inr r1 \<and> out2 = Inr r2 \<longrightarrow>
       choices r1 = choices r2 \<and> rewards r1 = rewards r2 \<and>
       cumulative_regret r1 = cumulative_regret r2 \<and>
       static_cumulative_regret r1 = static_cumulative_regret r2 \<and>
       alpha r1 = alpha r2 \<and> beta r1 = beta r2 \<and> true_probs r1 = true_probs r2)"
proof -
  have "fst (thompson_sampling_bernoulli cap R1 tp n (default_rng R1 seed1)) =
      fst (thompson_sampling_bernoulli cap R2 tp n (default_rng R2 seed2)) \<and>
    rel (snd (thompson_sampling_bernoulli cap R1 tp n (default_rng R1 seed1)))
      (snd (thompson_sampling_bernoulli cap R2 tp n (default_rng R2 seed2)))"
    using assms(1,2) by (rule simulation_sim)
  then have "out1 = out2" "rel g1 g2" using assms(3,4) by simp_all
  then show ?thesis by auto
qed

theorem determinism_witness:
  "same_draws (=) lcg (lcg\<lparr>default_rng := (\<lambda>seed. 0)\<rparr>) \<and>
   default_rng lcg 0 = default_rng (lcg\<lparr>default_rng := (\<lambda>seed. 0)\<rparr>) 5 \<and>
   thompson_sampling_bernoulli 10 lcg [1/4, 3/4] 2 (default_rng lcg 0) =
     (Inr \<lparr>choices = [0, 1], rewards = [0, 1], alpha = [1, 2], beta = [2, 1],
            cumulative_regret = [1/2, 1/2], static_cumulative_regret = [0, 1/2],
            true_probs = [1/4, 3/4]\<rparr>, 8) \<and>
   thompson_sampling_bernoulli 10 (lcg\<lparr>default_rng := (\<lambda>seed. 0)\<rparr>) [1/4, 3/4] 2
       (default_rng (lcg\<lparr>default_rng := (\<lambda>seed. 0)\<rparr>) 5) =
     (Inr \<lparr>choices = [0, 1], rewards = [0, 1], alpha = [1, 2], beta = [2, 1],
            cumulative_regret = [1/2, 1/2], static_cumulative_regret = [0, 1/2],
            true_probs = [1/4, 3/4]\<rparr>, 8)"
proof -
  let ?R2 = "lcg\<lparr>default_rng := (\<lambda>seed. 0)\<rparr>"
  have sd: "same_draws (=) lcg ?R2" by (simp add: same_draws_def)
  have seeds: "default_rng lcg 0 = default_rng ?R2 5" by (simp add: lcg_def)
  obtain out2 g2 where run2:
    "thompson_sampling_bernoulli 10 ?R2 [1/4, 3/4] 2 (default_rng ?R2 5) = (out2, g2)"
    by (cases "thompson_sampling_bernoulli 10 ?R2 [1/4, 3/4] 2 (default_rng ?R2 5)")
  have "Inr \<lparr>choices = [0, 1], rewards = [0, 1], alpha = [1, 2], beta = [2, 1],
            cumulative_regret = [1/2, 1/2], static_cumulative_regret = [0, 1/2],
            true_probs = [1/4, 3/4]\<rparr> = out2 \<and> (8::nat) = g2"
    using determinism[OF sd seeds lcg_run run2] by simp
  then show ?thesis using sd seeds lcg_run run2 by simp
qed

section \<open>The posterior update\<close>

text \<open>
  C3: a trial that completes has chosen one arm \<open>c\<close> and added exactly 1 to \<open>alpha[c]\<close>
  when the reward is 1, to \<open>beta[c]\<close> otherwise; every other entry of \<open>alpha\<close> and
  \<open>beta\<close> is as before, so no entry decreases. After any number \<open>k\<close> of trials from the
  initial arrays, every \<open>alpha[i]\<close> and \<open>beta[i]\<close> is at least 1.
\<close>

theorem posterior_update:
  "(trial R tp best t s g = (Inr s', g') \<longrightarrow>
      (\<exists>c. c < length tp \<and> choices s' ! t = int c \<and>
         (if rewards s' ! t = 1
          then c < length (alpha s) \<and> alpha s' = (alpha s)[c := alpha s ! c + 1] \<and> beta s' = beta s
          else c < length (beta s) \<and> beta s' = (beta s)[c := beta s ! c + 1] \<and> alpha s' = alpha s)) \<and>
      length (alpha s') = length (alpha s) \<and> length (beta s') = length (beta s) \<and>
      (\<forall>i < length (alpha s). alpha s ! i \<le> alpha s' ! i) \<and>
      (\<forall>i < length (beta s). beta s ! i \<le> beta s' ! i)) \<and>
   (initialise cap tp n = Inr (s0, best) \<and> run_trials R tp best [0..<k] s0 g0 = (Inr sk, gk) \<longrightarrow>
      length (alpha sk) = length tp \<and> length (beta sk) = length tp \<and>
      (\<forall>i < length tp. 1 \<le> alpha sk ! i \<and> 1 \<le> beta sk ! i))"
proof (intro conjI impI)
  assume tr: "trial R tp best t s g = (Inr s', g')"
  obtain c reward where c: "c < length tp" and t: "t < length (choices s)" "t < length (rewards s)"
    and cl: "if reward = 1 then c < length (alpha s) else c < length (beta s)"
    and s': "s' = \<lparr>choices = (choices s)[t := int c], rewards = (rewards s)[t := reward],
           alpha = (if reward = 1 then (alpha s)[c := alpha s ! c + 1] else alpha s),
           beta = (if reward = 1 then beta s else (beta s)[c := beta s ! c + 1]),
           realized_regret = (realized_regret s)[t := best - tp ! c]\<rparr>"
    using trial_Inr[OF tr] by blast
  have rw: "rewards s' ! t = reward" and ch: "choices s' ! t = int c" using s' t by simp_all
  show "\<exists>c. c < length tp \<and> choices s' ! t = int c \<and>
         (if rewards s' ! t = 1
          then c < length (alpha s) \<and> alpha s' = (alpha s)[c := alpha s ! c + 1] \<and> beta s' = beta s
          else c < length (beta s) \<and> beta s' = (beta s)[c := beta s ! c + 1] \<and> alpha s' = alpha s)"
    using c ch cl rw s' by (intro exI[of _ c]) (cases "reward = 1", simp_all)
  show "length (alpha s') = length (alpha s)" using s' by simp
  show "length (beta s') = length (beta s)" using s' by simp
  show "\<forall>i < length (alpha s). alpha s ! i \<le> alpha s' ! i"
    using s' by (simp add: bump_mono)
  show "\<forall>i < length (beta s). beta s ! i \<le> beta s' ! i"
    using s' by (simp add: bump_mono)
next
  assume a: "initialise cap tp n = Inr (s0, best) \<and> run_trials R tp best [0..<k] s0 g0 = (Inr sk, gk)"
  then have s0: "s0 = start_state tp n" using initialise_Inr[of cap tp n s0 best] by simp
  have ok: "state_ok (length tp) (nat n) sk"
    using initial_state_ok[of tp n] a unfolding s0 by (blast intro: run_trials_state_ok)
  then show "length (alpha sk) = length tp" "length (beta sk) = length tp"
    by (simp_all add: state_ok_def)
  show "\<forall>i < length tp. 1 \<le> alpha sk ! i \<and> 1 \<le> beta sk ! i"
    using ok by (simp add: state_ok_def)
qed

theorem posterior_update_witness:
  "trial lcg [1/4, 3/4] (3/4) 0 (start_state [1/4, 3/4] 2) 0 =
     (Inr \<lparr>choices = [0, 0], rewards = [0, 0], alpha = [1, 1], beta = [2, 1],
            realized_regret = [1/2, 0]\<rparr>, 13) \<and>
   initialise 10 [1/4, 3/4] 2 = Inr (start_state [1/4, 3/4] 2, 3/4) \<and>
   run_trials lcg [1/4, 3/4] (3/4) [0..<2] (start_state [1/4, 3/4] 2) 0 =
     (Inr \<lparr>choices = [0, 1], rewards = [0, 1], alpha = [1, 2], beta = [2, 1],
            realized_regret = [1/2, 0]\<rparr>, 6) \<and>
   length (alpha \<lparr>choices = [0, 0], rewards = [0, 0], alpha = [1, 1], beta = [2, 1],
            realized_regret = [1/2, 0]\<rparr>) = length (alpha (start_state [1/4, 3/4] 2)) \<and>
   length (alpha \<lparr>choices = [0, 1], rewards = [0, 1], alpha = [1, 2], beta = [2, 1],
            realized_regret = [1/2, 0]\<rparr>) = length [1/4, 3/4 :: real]"
  using posterior_update[of lcg "[1/4, 3/4]" "3/4" 0 "start_state [1/4, 3/4] 2" 0
      "\<lparr>choices = [0, 0], rewards = [0, 0], alpha = [1, 1], beta = [2, 1],
            realized_regret = [1/2, 0]\<rparr>" 13 10 2 "start_state [1/4, 3/4] 2" 2 0
      "\<lparr>choices = [0, 1], rewards = [0, 1], alpha = [1, 2], beta = [2, 1],
            realized_regret = [1/2, 0]\<rparr>" 6]
    lcg_trial lcg_initialise lcg_loop
  by simp

section \<open>The choice of the arm\<close>

text \<open>
  C4: in a trial that completes, the arm written to \<open>choices[t]\<close> is an index \<open>c\<close> of
  the Beta samples drawn in that trial with \<open>sampled[j] \<le> sampled[c]\<close> for every arm
  \<open>j\<close> and \<open>sampled[j] < sampled[c]\<close> for every \<open>j < c\<close>: the first arm that attains
  the maximum.
\<close>

theorem chosen_arm_is_first_maximum:
  assumes "trial R tp best t s g = (Inr s', g')"
  shows "\<exists>sampled g1 c. rng_beta R (alpha s) (beta s) g = (Inr sampled, g1) \<and>
     length sampled = length (alpha s) \<and> c < length sampled \<and> choices s' ! t = int c \<and>
     (\<forall>j < length sampled. sampled ! j \<le> sampled ! c) \<and> (\<forall>j < c. sampled ! j < sampled ! c)"
proof -
  obtain sampled g1 c reward where b: "rng_beta R (alpha s) (beta s) g = (Inr sampled, g1)"
    and c: "argmax sampled = Inr c" and t: "t < length (choices s)"
    and s': "s' = \<lparr>choices = (choices s)[t := int c], rewards = (rewards s)[t := reward],
           alpha = (if reward = 1 then (alpha s)[c := alpha s ! c + 1] else alpha s),
           beta = (if reward = 1 then beta s else (beta s)[c := beta s ! c + 1]),
           realized_regret = (realized_regret s)[t := best - tp ! c]\<rparr>"
    using trial_Inr[OF assms] by blast
  have "choices s' ! t = int c" using s' t by simp
  then show ?thesis using b rng_beta_Inr[OF b] argmax_first[OF c] by blast
qed

theorem chosen_arm_is_first_maximum_witness:
  "trial lcg [1/4, 3/4] (3/4) 0 (start_state [1/4, 3/4] 2) 0 =
     (Inr \<lparr>choices = [0, 0], rewards = [0, 0], alpha = [1, 1], beta = [2, 1],
            realized_regret = [1/2, 0]\<rparr>, 13) \<and>
   (\<exists>sampled g1 c.
      rng_beta lcg (alpha (start_state [1/4, 3/4] 2)) (beta (start_state [1/4, 3/4] 2)) 0 =
        (Inr sampled, g1) \<and>
      length sampled = length (alpha (start_state [1/4, 3/4] 2)) \<and> c < length sampled \<and>
      choices \<lparr>choices = [0, 0], rewards = [0, 0], alpha = [1, 1], beta = [2, 1],
            realized_regret = [1/2, 0]\<rparr> ! 0 = int c \<and>
      (\<forall>j < length sampled. sampled ! j \<le> sampled ! c) \<and> (\<forall>j < c. sampled ! j < sampled ! c))"
  using chosen_arm_is_first_maximum[OF lcg_trial] lcg_trial by (intro conjI)

section \<open>The sum of the posterior parameters\<close>

text \<open>
  C5: whenever the call returns, for any generator, the returned \<open>alpha\<close> and \<open>beta\<close>
  satisfy \<open>sum(alpha) + sum(beta) = 2 * n_arms + n_trials\<close>; and for a valid input and a
  generator whose integer draws are in range the call does return.
\<close>

theorem posterior_total:
  "(thompson_sampling_bernoulli cap R tp n g = (Inr r, g') \<longrightarrow>
      sum_list (alpha r) + sum_list (beta r) = 2 * real (length tp) + real_of_int n) \<and>
   (valid_input tp n \<and> fits cap tp n \<and> integers_in_range R \<longrightarrow>
      (\<exists>r g'. thompson_sampling_bernoulli cap R tp n g = (Inr r, g')))"
proof (intro conjI impI)
  assume a: "thompson_sampling_bernoulli cap R tp n g = (Inr r, g')"
  obtain s g1 where n: "0 \<le> n"
    and run: "run_trials R tp (Max (set tp)) [0..<nat n] (start_state tp n) g = (Inr s, g1)"
    and r: "alpha r = alpha s" "beta r = beta s"
    using simulation_Inr[OF a] by auto
  have "sum_list (alpha s) + sum_list (beta s) = 2 * real (length tp) + real (nat n)"
    using full_run_facts[OF run] by simp
  then show "sum_list (alpha r) + sum_list (beta r) = 2 * real (length tp) + real_of_int n"
    using r n by simp
next
  assume "valid_input tp n \<and> fits cap tp n \<and> integers_in_range R"
  then show "\<exists>r g'. thompson_sampling_bernoulli cap R tp n g = (Inr r, g')"
    using valid_returns[of tp n cap R g] by simp
qed

theorem posterior_total_witness:
  "thompson_sampling_bernoulli 10 lcg [1/4, 3/4] 2 (default_rng lcg 0) =
     (Inr \<lparr>choices = [0, 1], rewards = [0, 1], alpha = [1, 2], beta = [2, 1],
            cumulative_regret = [1/2, 1/2], static_cumulative_regret = [0, 1/2],
            true_probs = [1/4, 3/4]\<rparr>, 8) \<and>
   valid_input [1/4, 3/4] 2 \<and> fits 10 [1/4, 3/4] 2 \<and> integers_in_range lcg \<and>
   sum_list (alpha \<lparr>choices = [0, 1], rewards = [0, 1], alpha = [1, 2], beta = [2, 1],
            cumulative_regret = [1/2, 1/2], static_cumulative_regret = [0, 1/2],
            true_probs = [1/4, 3/4]\<rparr>) +
   sum_list (beta \<lparr>choices = [0, 1], rewards = [0, 1], alpha = [1, 2], beta = [2, 1],
            cumulative_regret = [1/2, 1/2], static_cumulative_regret = [0, 1/2],
            true_probs = [1/4, 3/4]\<rparr>) =
     2 * real (length [1/4, 3/4 :: real]) + real_of_int 2 \<and>
   (\<exists>r g'. thompson_sampling_bernoulli 10 lcg [1/4, 3/4] 2 (default_rng lcg 0) = (Inr r, g'))"
proof -
  note t = posterior_total[of 10 lcg "[1/4, 3/4]" 2 "default_rng lcg 0"
      "\<lparr>choices = [0, 1], rewards = [0, 1], alpha = [1, 2], beta = [2, 1],
            cumulative_regret = [1/2, 1/2], static_cumulative_regret = [0, 1/2],
            true_probs = [1/4, 3/4]\<rparr>" 8]
  have a: "sum_list (alpha \<lparr>choices = [0, 1], rewards = [0, 1], alpha = [1, 2], beta = [2, 1],
            cumulative_regret = [1/2, 1/2], static_cumulative_regret = [0, 1/2],
            true_probs = [1/4, 3/4]\<rparr>) +
      sum_list (beta \<lparr>choices = [0, 1], rewards = [0, 1], alpha = [1, 2], beta = [2, 1],
            cumulative_regret = [1/2, 1/2], static_cumulative_regret = [0, 1/2],
            true_probs = [1/4, 3/4]\<rparr>) =
      2 * real (length [1/4, 3/4 :: real]) + real_of_int 2"
    using t lcg_run by blast
  have b: "\<exists>r g'. thompson_sampling_bernoulli 10 lcg [1/4, 3/4] 2 (default_rng lcg 0) = (Inr r, g')"
    using t lcg_valid lcg_fits lcg_in_range by blast
  show ?thesis using a b lcg_run lcg_valid lcg_fits lcg_in_range by (intro conjI)
qed

section \<open>Realized regret\<close>

text \<open>
  C6: whenever the call returns, for any generator, the two returned series are the
  running sums of the realized regrets of the loop and of the baseline, and at every
  trial \<open>t\<close> each realized regret is \<open>max(true_probs)\<close> minus the true probability of
  the arm of that trial and lies between 0 and \<open>max(true_probs) - min(true_probs)\<close>;
  and for a valid input and a generator whose integer draws are in range the call does
  return.
\<close>

theorem realized_regret_bounds:
  "(thompson_sampling_bernoulli cap R tp n g = (Inr r, g2) \<longrightarrow>
      (\<exists>s g1 sr.
        initialise cap tp n = Inr (start_state tp n, Max (set tp)) \<and>
        run_trials R tp (Max (set tp)) [0..<nat n] (start_state tp n) g = (Inr s, g1) \<and>
        static_regret R tp (Max (set tp)) n g1 = (Inr sr, g2) \<and>
        cumulative_regret r = cumsum (realized_regret s) \<and>
        static_cumulative_regret r = cumsum sr \<and>
        length (realized_regret s) = nat n \<and> length sr = nat n \<and>
        (\<forall>t < nat n.
          (\<exists>c < length tp. choices r ! t = int c \<and>
             realized_regret s ! t = Max (set tp) - tp ! c) \<and>
          0 \<le> realized_regret s ! t \<and>
          realized_regret s ! t \<le> Max (set tp) - Min (set tp) \<and>
          (\<exists>i < length tp. sr ! t = Max (set tp) - tp ! i) \<and>
          0 \<le> sr ! t \<and> sr ! t \<le> Max (set tp) - Min (set tp)))) \<and>
   (valid_input tp n \<and> fits cap tp n \<and> integers_in_range R \<longrightarrow>
      (\<exists>r g2. thompson_sampling_bernoulli cap R tp n g = (Inr r, g2)))"
proof (intro conjI impI)
  assume a: "thompson_sampling_bernoulli cap R tp n g = (Inr r, g2)"
  obtain s g1 sr where v: "tp \<noteq> []" "0 \<le> n" "fits cap tp n"
    and run: "run_trials R tp (Max (set tp)) [0..<nat n] (start_state tp n) g = (Inr s, g1)"
    and st: "static_regret R tp (Max (set tp)) n g1 = (Inr sr, g2)"
    and r: "r = \<lparr>choices = choices s, rewards = rewards s, alpha = alpha s, beta = beta s,
             cumulative_regret = cumsum (realized_regret s),
             static_cumulative_regret = cumsum sr, true_probs = tp\<rparr>"
    using simulation_Inr[OF a] by blast
  show "(\<exists>s g1 sr.
        initialise cap tp n = Inr (start_state tp n, Max (set tp)) \<and>
        run_trials R tp (Max (set tp)) [0..<nat n] (start_state tp n) g = (Inr s, g1) \<and>
        static_regret R tp (Max (set tp)) n g1 = (Inr sr, g2) \<and>
        cumulative_regret r = cumsum (realized_regret s) \<and>
        static_cumulative_regret r = cumsum sr \<and>
        length (realized_regret s) = nat n \<and> length sr = nat n \<and>
        (\<forall>t < nat n.
          (\<exists>c < length tp. choices r ! t = int c \<and>
             realized_regret s ! t = Max (set tp) - tp ! c) \<and>
          0 \<le> realized_regret s ! t \<and>
          realized_regret s ! t \<le> Max (set tp) - Min (set tp) \<and>
          (\<exists>i < length tp. sr ! t = Max (set tp) - tp ! i) \<and>
          0 \<le> sr ! t \<and> sr ! t \<le> Max (set tp) - Min (set tp)))"
    apply (rule exI[of _ s], rule exI[of _ g1], rule exI[of _ sr])
    using initialise_ok[OF v] run st r per_trial_facts[OF run st v(2)] by simp
next
  assume "valid_input tp n \<and> fits cap tp n \<and> integers_in_range R"
  then show "\<exists>r g2. thompson_sampling_bernoulli cap R tp n g = (Inr r, g2)"
    using valid_returns[of tp n cap R g] by simp
qed

theorem realized_regret_bounds_witness:
  "thompson_sampling_bernoulli 10 lcg [1/4, 3/4] 2 (default_rng lcg 0) =
     (Inr \<lparr>choices = [0, 1], rewards = [0, 1], alpha = [1, 2], beta = [2, 1],
            cumulative_regret = [1/2, 1/2], static_cumulative_regret = [0, 1/2],
            true_probs = [1/4, 3/4]\<rparr>, 8) \<and>
   valid_input [1/4, 3/4] 2 \<and> fits 10 [1/4, 3/4] 2 \<and> integers_in_range lcg \<and>
   (\<exists>s g1 sr.
        initialise 10 [1/4, 3/4] 2 = Inr (start_state [1/4, 3/4] 2, Max (set [1/4, 3/4])) \<and>
        run_trials lcg [1/4, 3/4] (Max (set [1/4, 3/4])) [0..<nat 2] (start_state [1/4, 3/4] 2) (default_rng lcg 0) = (Inr s, g1) \<and>
        static_regret lcg [1/4, 3/4] (Max (set [1/4, 3/4])) 2 g1 = (Inr sr, 8) \<and>
        cumulative_regret \<lparr>choices = [0, 1], rewards = [0, 1], alpha = [1, 2], beta = [2, 1],
            cumulative_regret = [1/2, 1/2], static_cumulative_regret = [0, 1/2],
            true_probs = [1/4, 3/4]\<rparr> = cumsum (realized_regret s) \<and>
        static_cumulative_regret \<lparr>choices = [0, 1], rewards = [0, 1], alpha = [1, 2], beta = [2, 1],
            cumulative_regret = [1/2, 1/2], static_cumulative_regret = [0, 1/2],
            true_probs = [1/4, 3/4]\<rparr> = cumsum sr \<and>
        length (realized_regret s) = nat 2 \<and> length sr = nat 2 \<and>
        (\<forall>t < nat 2.
          (\<exists>c < length [1/4, 3/4 :: real]. choices \<lparr>choices = [0, 1], rewards = [0, 1], alpha = [1, 2], beta = [2, 1],
            cumulative_regret = [1/2, 1/2], static_cumulative_regret = [0, 1/2],
            true_probs = [1/4, 3/4]\<rparr> ! t = int c \<and>
             realized_regret s ! t = Max (set [1/4, 3/4]) - [1/4, 3/4] ! c) \<and>
          0 \<le> realized_regret s ! t \<and>
          realized_regret s ! t \<le> Max (set [1/4, 3/4]) - Min (set [1/4, 3/4]) \<and>
          (\<exists>i < length [1/4, 3/4 :: real]. sr ! t = Max (set [1/4, 3/4]) - [1/4, 3/4] ! i) \<and>
          0 \<le> sr ! t \<and> sr ! t \<le> Max (set [1/4, 3/4]) - Min (set [1/4, 3/4]))) \<and>
   (\<exists>r g2. thompson_sampling_bernoulli 10 lcg [1/4, 3/4] 2 (default_rng lcg 0) = (Inr r, g2))"
proof -
  note t = realized_regret_bounds[of 10 lcg "[1/4, 3/4]" 2 "default_rng lcg 0"
      "\<lparr>choices = [0, 1], rewards = [0, 1], alpha = [1, 2], beta = [2, 1],
            cumulative_regret = [1/2, 1/2], static_cumulative_regret = [0, 1/2],
            true_probs = [1/4, 3/4]\<rparr>" 8]
  have a: "(\<exists>s g1 sr.
        initialise 10 [1/4, 3/4] 2 = Inr (start_state [1/4, 3/4] 2, Max (set [1/4, 3/4])) \<and>
        run_trials lcg [1/4, 3/4] (Max (set [1/4, 3/4])) [0..<nat 2] (start_state [1/4, 3/4] 2) (default_rng lcg 0) = (Inr s, g1) \<and>
        static_regret lcg [1/4, 3/4] (Max (set [1/4, 3/4])) 2 g1 = (Inr sr, 8) \<and>
        cumulative_regret \<lparr>choices = [0, 1], rewards = [0, 1], alpha = [1, 2], beta = [2, 1],
            cumulative_regret = [1/2, 1/2], static_cumulative_regret = [0, 1/2],
            true_probs = [1/4, 3/4]\<rparr> = cumsum (realized_regret s) \<and>
        static_cumulative_regret \<lparr>choices = [0, 1], rewards = [0, 1], alpha = [1, 2], beta = [2, 1],
            cumulative_regret = [1/2, 1/2], static_cumulative_regret = [0, 1/2],
            true_probs = [1/4, 3/4]\<rparr> = cumsum sr \<and>
        length (realized_regret s) = nat 2 \<and> length sr = nat 2 \<and>
        (\<forall>t < nat 2.
          (\<exists>c < length [1/4, 3/4 :: real]. choices \<lparr>choices = [0, 1], rewards = [0, 1], alpha = [1, 2], beta = [2, 1],
            cumulative_regret = [1/2, 1/2], static_cumulative_regret = [0, 1/2],
            true_probs = [1/4, 3/4]\<rparr> ! t = int c \<and>
             realized_regret s ! t = Max (set [1/4, 3/4]) - [1/4, 3/4] ! c) \<and>
          0 \<le> realized_regret s ! t \<and>
          realized_regret s ! t \<le> Max (set [1/4, 3/4]) - Min (set [1/4, 3/4]) \<and>
          (\<exists>i < length [1/4, 3/4 :: real]. sr ! t = Max (set [1/4, 3/4]) - [1/4, 3/4] ! i) \<and>
          0 \<le> sr ! t \<and> sr ! t \<le> Max (set [1/4, 3/4]) - Min (set [1/4, 3/4])))"
    by (rule mp[OF conjunct1[OF t] lcg_run])
  have b: "\<exists>r g2. thompson_sampling_bernoulli 10 lcg [1/4, 3/4] 2 (default_rng lcg 0) = (Inr r, g2)"
    using t lcg_valid lcg_fits lcg_in_range by blast
  show ?thesis using a b lcg_run lcg_valid lcg_fits lcg_in_range by (intro conjI)
qed

section \<open>The cumulative regret series\<close>

text \<open>
  C7: whenever the call returns, for any generator, each of the two cumulative regret
  series has length \<open>n_trials\<close> and every entry is at least the entry before it; and for
  a valid input and a generator whose integer draws are in range the call does return.
\<close>

theorem cumulative_regret_monotone:
  "(thompson_sampling_bernoulli cap R tp n g = (Inr r, g') \<longrightarrow>
      length (cumulative_regret r) = nat n \<and> length (static_cumulative_regret r) = nat n \<and>
      sorted (cumulative_regret r) \<and> sorted (static_cumulative_regret r) \<and>
      (\<forall>i. Suc i < nat n \<longrightarrow>
         cumulative_regret r ! i \<le> cumulative_regret r ! Suc i \<and>
         static_cumulative_regret r ! i \<le> static_cumulative_regret r ! Suc i)) \<and>
   (valid_input tp n \<and> fits cap tp n \<and> integers_in_range R \<longrightarrow>
      (\<exists>r g'. thompson_sampling_bernoulli cap R tp n g = (Inr r, g')))"
proof (intro conjI impI)
  assume a: "thompson_sampling_bernoulli cap R tp n g = (Inr r, g')"
  obtain s g1 sr where v: "0 \<le> n"
    and run: "run_trials R tp (Max (set tp)) [0..<nat n] (start_state tp n) g = (Inr s, g1)"
    and st: "static_regret R tp (Max (set tp)) n g1 = (Inr sr, g')"
    and r: "r = \<lparr>choices = choices s, rewards = rewards s, alpha = alpha s, beta = beta s,
             cumulative_regret = cumsum (realized_regret s),
             static_cumulative_regret = cumsum sr, true_probs = tp\<rparr>"
    using simulation_Inr[OF a] by blast
  note f = per_trial_facts[OF run st v]
  have nn: "\<forall>x\<in>set (realized_regret s). 0 \<le> x"
    using f(1) f(4) by (intro nonneg_list[of _ "nat n"]) simp_all
  have ns: "\<forall>x\<in>set sr. 0 \<le> x"
    using f(2) f(4) by (intro nonneg_list[of _ "nat n"]) simp_all
  have cr: "cumulative_regret r = cumsum (realized_regret s)"
    and scr: "static_cumulative_regret r = cumsum sr" using r by simp_all
  show "length (cumulative_regret r) = nat n" using cr f(1) cumsum_steps[OF nn] by simp
  show "length (static_cumulative_regret r) = nat n" using scr f(2) cumsum_steps[OF ns] by simp
  show "sorted (cumulative_regret r)" using cr cumsum_steps[OF nn] by simp
  show "sorted (static_cumulative_regret r)" using scr cumsum_steps[OF ns] by simp
  show "\<forall>i. Suc i < nat n \<longrightarrow>
         cumulative_regret r ! i \<le> cumulative_regret r ! Suc i \<and>
         static_cumulative_regret r ! i \<le> static_cumulative_regret r ! Suc i"
    using cr scr f(1) f(2) cumsum_steps[OF nn] cumsum_steps[OF ns] by simp
next
  assume "valid_input tp n \<and> fits cap tp n \<and> integers_in_range R"
  then show "\<exists>r g'. thompson_sampling_bernoulli cap R tp n g = (Inr r, g')"
    using valid_returns[of tp n cap R g] by simp
qed

theorem cumulative_regret_monotone_witness:
  "thompson_sampling_bernoulli 10 lcg [1/4, 3/4] 2 (default_rng lcg 0) =
     (Inr \<lparr>choices = [0, 1], rewards = [0, 1], alpha = [1, 2], beta = [2, 1],
            cumulative_regret = [1/2, 1/2], static_cumulative_regret = [0, 1/2],
            true_probs = [1/4, 3/4]\<rparr>, 8) \<and>
   valid_input [1/4, 3/4] 2 \<and> fits 10 [1/4, 3/4] 2 \<and> integers_in_range lcg \<and>
   length (cumulative_regret \<lparr>choices = [0, 1], rewards = [0, 1], alpha = [1, 2], beta = [2, 1],
            cumulative_regret = [1/2, 1/2], static_cumulative_regret = [0, 1/2],
            true_probs = [1/4, 3/4]\<rparr>) = nat 2 \<and>
   sorted (static_cumulative_regret \<lparr>choices = [0, 1], rewards = [0, 1], alpha = [1, 2], beta = [2, 1],
            cumulative_regret = [1/2, 1/2], static_cumulative_regret = [0, 1/2],
            true_probs = [1/4, 3/4]\<rparr>) \<and>
   (\<exists>r g'. thompson_sampling_bernoulli 10 lcg [1/4, 3/4] 2 (default_rng lcg 0) = (Inr r, g'))"
proof -
  note t = cumulative_regret_monotone[of 10 lcg "[1/4, 3/4]" 2 "default_rng lcg 0"
      "\<lparr>choices = [0, 1], rewards = [0, 1], alpha = [1, 2], beta = [2, 1],
            cumulative_regret = [1/2, 1/2], static_cumulative_regret = [0, 1/2],
            true_probs = [1/4, 3/4]\<rparr>" 8]
  have a: "length (cumulative_regret \<lparr>choices = [0, 1], rewards = [0, 1], alpha = [1, 2], beta = [2, 1],
            cumulative_regret = [1/2, 1/2], static_cumulative_regret = [0, 1/2],
            true_probs = [1/4, 3/4]\<rparr>) = nat 2"
    using t lcg_run by blast
  have a': "sorted (static_cumulative_regret \<lparr>choices = [0, 1], rewards = [0, 1], alpha = [1, 2], beta = [2, 1],
            cumulative_regret = [1/2, 1/2], static_cumulative_regret = [0, 1/2],
            true_probs = [1/4, 3/4]\<rparr>)"
    using t lcg_run by blast
  have b: "\<exists>r g'. thompson_sampling_bernoulli 10 lcg [1/4, 3/4] 2 (default_rng lcg 0) = (Inr r, g')"
    using t lcg_valid lcg_fits lcg_in_range by blast
  show ?thesis using a a' b lcg_run lcg_valid lcg_fits lcg_in_range by (intro conjI)
qed

section \<open>A single arm\<close>

text \<open>
  C8: with a single arm, whenever the call returns, for any generator, every trial has
  chosen arm 0, every realized regret (of the loop and of the baseline) is 0, and both
  cumulative series are 0 throughout; and for a probability in \<open>[0,1]\<close>, \<open>n_trials > 0\<close>
  and a generator whose integer draws are in range the call does return.
\<close>

theorem single_arm:
  "(thompson_sampling_bernoulli cap R [p] n g = (Inr r, g2) \<longrightarrow>
      choices r = replicate (nat n) 0 \<and>
      cumulative_regret r = replicate (nat n) 0 \<and>
      static_cumulative_regret r = replicate (nat n) 0 \<and>
      (\<exists>s g1 sr.
         run_trials R [p] p [0..<nat n] (start_state [p] n) g = (Inr s, g1) \<and>
         static_regret R [p] p n g1 = (Inr sr, g2) \<and>
         realized_regret s = replicate (nat n) 0 \<and> sr = replicate (nat n) 0)) \<and>
   (0 \<le> p \<and> p \<le> 1 \<and> 0 < n \<and> fits cap [p] n \<and> integers_in_range R \<longrightarrow>
      (\<exists>r g2. thompson_sampling_bernoulli cap R [p] n g = (Inr r, g2)))"
proof (intro conjI impI)
  assume a: "thompson_sampling_bernoulli cap R [p] n g = (Inr r, g2)"
  obtain s g1 sr where n: "0 \<le> n"
    and run: "run_trials R [p] (Max (set [p])) [0..<nat n] (start_state [p] n) g = (Inr s, g1)"
    and st: "static_regret R [p] (Max (set [p])) n g1 = (Inr sr, g2)"
    and r: "r = \<lparr>choices = choices s, rewards = rewards s, alpha = alpha s, beta = beta s,
             cumulative_regret = cumsum (realized_regret s),
             static_cumulative_regret = cumsum sr, true_probs = [p]\<rparr>"
    using simulation_Inr[OF a] by blast
  note f = per_trial_facts[OF run st n]
  have "\<forall>t < nat n. choices s ! t = 0 \<and> realized_regret s ! t = 0 \<and> sr ! t = 0"
    using f(4) by auto
  then have c0: "choices s = replicate (nat n) 0" and r0: "realized_regret s = replicate (nat n) 0"
    and s0: "sr = replicate (nat n) 0"
    using f(1) f(2) f(3) by (simp_all add: list_eq_iff_nth_eq)
  have z: "cumsum (replicate (nat n) 0) = replicate (nat n) 0"
    by (simp add: cumsum_def cumsum_from_zeros)
  show "choices r = replicate (nat n) 0" using r c0 by simp
  show "cumulative_regret r = replicate (nat n) 0" using r r0 z by simp
  show "static_cumulative_regret r = replicate (nat n) 0" using r s0 z by simp
  show "\<exists>s g1 sr.
         run_trials R [p] p [0..<nat n] (start_state [p] n) g = (Inr s, g1) \<and>
         static_regret R [p] p n g1 = (Inr sr, g2) \<and>
         realized_regret s = replicate (nat n) 0 \<and> sr = replicate (nat n) 0"
    apply (rule exI[of _ s], rule exI[of _ g1], rule exI[of _ sr])
    using run st r0 s0 by simp
next
  assume a: "0 \<le> p \<and> p \<le> 1 \<and> 0 < n \<and> fits cap [p] n \<and> integers_in_range R"
  then have "valid_input [p] n" by (simp add: valid_input_def)
  then show "\<exists>r g2. thompson_sampling_bernoulli cap R [p] n g = (Inr r, g2)"
    using a valid_returns[of "[p]" n cap R g] by simp
qed

theorem single_arm_witness:
  "thompson_sampling_bernoulli 10 lcg [1/2] 3 0 = (Inr \<lparr>choices = [0, 0, 0], rewards = [1, 1, 1], alpha = [4], beta = [1],
            cumulative_regret = [0, 0, 0], static_cumulative_regret = [0, 0, 0],
            true_probs = [1/2]\<rparr>, 11) \<and>
   (0::real) \<le> 1/2 \<and> (1/2::real) \<le> 1 \<and> (0::int) < 3 \<and> fits 10 [1/2] 3 \<and>
   integers_in_range lcg \<and>
   choices \<lparr>choices = [0, 0, 0], rewards = [1, 1, 1], alpha = [4], beta = [1],
            cumulative_regret = [0, 0, 0], static_cumulative_regret = [0, 0, 0],
            true_probs = [1/2]\<rparr> = replicate (nat 3) 0 \<and>
   cumulative_regret \<lparr>choices = [0, 0, 0], rewards = [1, 1, 1], alpha = [4], beta = [1],
            cumulative_regret = [0, 0, 0], static_cumulative_regret = [0, 0, 0],
            true_probs = [1/2]\<rparr> = replicate (nat 3) 0 \<and>
   (\<exists>r g2. thompson_sampling_bernoulli 10 lcg [1/2] 3 0 = (Inr r, g2))"
proof -
  have run: "thompson_sampling_bernoulli 10 lcg [1/2] 3 0 = (Inr \<lparr>choices = [0, 0, 0], rewards = [1, 1, 1], alpha = [4], beta = [1],
            cumulative_regret = [0, 0, 0], static_cumulative_regret = [0, 0, 0],
            true_probs = [1/2]\<rparr>, 11)"
    by code_simp
  note t = single_arm[of 10 lcg "1/2" 3 0 "\<lparr>choices = [0, 0, 0], rewards = [1, 1, 1], alpha = [4], beta = [1],
            cumulative_regret = [0, 0, 0], static_cumulative_regret = [0, 0, 0],
            true_probs = [1/2]\<rparr>" 11]
  have a: "choices \<lparr>choices = [0, 0, 0], rewards = [1, 1, 1], alpha = [4], beta = [1],
            cumulative_regret = [0, 0, 0], static_cumulative_regret = [0, 0, 0],
            true_probs = [1/2]\<rparr> = replicate (nat 3) 0"
    using t run by blast
  have a': "cumulative_regret \<lparr>choices = [0, 0, 0], rewards = [1, 1, 1], alpha = [4], beta = [1],
            cumulative_regret = [0, 0, 0], static_cumulative_regret = [0, 0, 0],
            true_probs = [1/2]\<rparr> = replicate (nat 3) 0"
    using t run by blast
  have h: "(0::real) \<le> 1/2" "(1/2::real) \<le> 1" "(0::int) < 3" "fits 10 [1/2] 3"
    by (simp_all add: fits_def allocatable_def)
  have b: "\<exists>r g2. thompson_sampling_bernoulli 10 lcg [1/2] 3 0 = (Inr r, g2)"
    using t h lcg_in_range by blast
  show ?thesis using run a a' b h lcg_in_range by (intro conjI)
qed

section \<open>The caller's probabilities and the generator\<close>

text \<open>
  C9: the \<open>true_probs\<close> field of a returned bundle is the \<open>true_probs\<close> that was passed
  in, which the call only reads; and whatever the outcome, the state the call leaves
  the generator in is reached from the state it found by draws of that generator.
\<close>

theorem only_draws_consumed:
  "(thompson_sampling_bernoulli cap R tp n g = (Inr r, g') \<longrightarrow> true_probs r = tp) \<and>
   (thompson_sampling_bernoulli cap R tp n g = (out, g') \<longrightarrow> consumes R g g')"
proof (intro conjI impI)
  assume "thompson_sampling_bernoulli cap R tp n g = (Inr r, g')"
  then show "true_probs r = tp" using simulation_Inr by fastforce
next
  assume "thompson_sampling_bernoulli cap R tp n g = (out, g')"
  then show "consumes R g g'" by (rule consumes_simulation)
qed

theorem only_draws_consumed_witness:
  "thompson_sampling_bernoulli 10 lcg [1/4, 3/4] 2 (default_rng lcg 0) =
     (Inr \<lparr>choices = [0, 1], rewards = [0, 1], alpha = [1, 2], beta = [2, 1],
            cumulative_regret = [1/2, 1/2], static_cumulative_regret = [0, 1/2],
            true_probs = [1/4, 3/4]\<rparr>, 8) \<and>
   true_probs \<lparr>choices = [0, 1], rewards = [0, 1], alpha = [1, 2], beta = [2, 1],
            cumulative_regret = [1/2, 1/2], static_cumulative_regret = [0, 1/2],
            true_probs = [1/4, 3/4]\<rparr> = [1/4, 3/4] \<and>
   consumes lcg (default_rng lcg 0) 8"
proof -
  note t = only_draws_consumed[of 10 lcg "[1/4, 3/4]" 2 "default_rng lcg 0"
      "\<lparr>choices = [0, 1], rewards = [0, 1], alpha = [1, 2], beta = [2, 1],
            cumulative_regret = [1/2, 1/2], static_cumulative_regret = [0, 1/2],
            true_probs = [1/4, 3/4]\<rparr>" 8
      "Inr \<lparr>choices = [0, 1], rewards = [0, 1], alpha = [1, 2], beta = [2, 1],
            cumulative_regret = [1/2, 1/2], static_cumulative_regret = [0, 1/2],
            true_probs = [1/4, 3/4]\<rparr>"]
  have a: "true_probs \<lparr>choices = [0, 1], rewards = [0, 1], alpha = [1, 2], beta = [2, 1],
            cumulative_regret = [1/2, 1/2], static_cumulative_regret = [0, 1/2],
            true_probs = [1/4, 3/4]\<rparr> = [1/4, 3/4]"
    using t lcg_run by blast
  have b: "consumes lcg (default_rng lcg 0) 8"
    using t lcg_run by blast
  show ?thesis using a b lcg_run by (intro conjI)
qed

section \<open>Whole-number posterior parameters\<close>

text \<open>
  C10: after any number \<open>k\<close> of trials from the initial arrays, and in the returned
  bundle, every \<open>alpha[i]\<close> and \<open>beta[i]\<close> is a positive whole number.
\<close>

theorem posterior_parameters_whole:
  "(initialise cap tp n = Inr (s0, best) \<and> run_trials R tp best [0..<k] s0 g0 = (Inr sk, gk) \<longrightarrow>
      (\<forall>x \<in> set (alpha sk) \<union> set (beta sk). x \<in> \<nat> \<and> 0 < x)) \<and>
   (thompson_sampling_bernoulli cap R tp n g = (Inr r, g') \<longrightarrow>
      (\<forall>x \<in> set (alpha r) \<union> set (beta r). x \<in> \<nat> \<and> 0 < x))"
proof (intro conjI impI)
  assume a: "initialise cap tp n = Inr (s0, best) \<and> run_trials R tp best [0..<k] s0 g0 = (Inr sk, gk)"
  then have s0: "s0 = start_state tp n" using initialise_Inr[of cap tp n s0 best] by simp
  have ok: "state_ok (length tp) (nat n) sk"
    using initial_state_ok[of tp n] a unfolding s0 by (blast intro: run_trials_state_ok)
  then show "\<forall>x \<in> set (alpha sk) \<union> set (beta sk). x \<in> \<nat> \<and> 0 < x"
    by (auto simp: state_ok_def intro: less_le_trans[OF zero_less_one])
next
  assume a: "thompson_sampling_bernoulli cap R tp n g = (Inr r, g')"
  obtain s g1 where run: "run_trials R tp (Max (set tp)) [0..<nat n] (start_state tp n) g = (Inr s, g1)"
    and r: "alpha r = alpha s" "beta r = beta s"
    using simulation_Inr[OF a] by auto
  have "state_ok (length tp) (nat n) s" using full_run_facts[OF run] by simp
  then show "\<forall>x \<in> set (alpha r) \<union> set (beta r). x \<in> \<nat> \<and> 0 < x"
    using r by (auto simp: state_ok_def intro: less_le_trans[OF zero_less_one])
qed

theorem posterior_parameters_whole_witness:
  "initialise 10 [1/4, 3/4] 2 = Inr (start_state [1/4, 3/4] 2, 3/4) \<and>
   run_trials lcg [1/4, 3/4] (3/4) [0..<2] (start_state [1/4, 3/4] 2) 0 =
     (Inr \<lparr>choices = [0, 1], rewards = [0, 1], alpha = [1, 2], beta = [2, 1],
            realized_regret = [1/2, 0]\<rparr>, 6) \<and>
   thompson_sampling_bernoulli 10 lcg [1/4, 3/4] 2 (default_rng lcg 0) =
     (Inr \<lparr>choices = [0, 1], rewards = [0, 1], alpha = [1, 2], beta = [2, 1],
            cumulative_regret = [1/2, 1/2], static_cumulative_regret = [0, 1/2],
            true_probs = [1/4, 3/4]\<rparr>, 8) \<and>
   (2::real) \<in> \<nat> \<and> (0::real) < 2"
proof -
  have "\<forall>x \<in> set (alpha \<lparr>choices = [0, 1], rewards = [0, 1], alpha = [1, 2], beta = [2, 1],
            realized_regret = [1/2, 0::real]\<rparr>) \<union>
          set (beta \<lparr>choices = [0, 1], rewards = [0, 1], alpha = [1, 2], beta = [2, 1],
            realized_regret = [1/2, 0::real]\<rparr>). x \<in> \<nat> \<and> 0 < x"
    using posterior_parameters_whole[of 10 "[1/4, 3/4]" 2 "start_state [1/4, 3/4] 2" "3/4" lcg 2 0
      "\<lparr>choices = [0, 1], rewards = [0, 1], alpha = [1, 2], beta = [2, 1],
            realized_regret = [1/2, 0]\<rparr>" 6] lcg_initialise lcg_loop
    by blast
  then have "(2::real) \<in> \<nat> \<and> (0::real) < 2" by simp
  then show ?thesis using lcg_initialise lcg_loop lcg_run by (intro conjI) simp_all
qed

end
